theory Spec2Isabelle
  imports Main "HOL-Library.Sublist"
begin

section \<open>The deck generation queue (src/app/src/queue/deck-generation-queue.ts)\<close>

text \<open>
  The class \<^verbatim>\<open>DeckGenerationQueue\<close> keeps a broker connection, a channel, a flag
  \<^verbatim>\<open>isConsuming\<close> and an in-memory map of job statuses. Its methods are embedded
  as functions from a system state to a result and a new state. Everything outside
  the class is made explicit:
  \<^item> the identifier generator is a parameter \<open>gen\<close>, a supply of strings indexed by the
    number of identifiers drawn so far;
  \<^item> the outcome of every awaited external operation of one call (connect,
    createChannel, assertQueue, consume, generateCards, insert) is read from a
    record \<open>world\<close>, so each of them may raise;
  \<^item> ack and nack are calls on the channel that raise when the channel does not accept
    them (a closed channel); their outcome is read from \<open>world\<close> too, an ack raised
    inside the try block reaches the catch block, and a nack raised inside the catch block
    leaves the handler;
  \<^item> sendToQueue is recorded as issued;
  \<^item> a body on the wire is either the JSON text of a payload or text that
    \<^verbatim>\<open>JSON.parse\<close> rejects; the payload has the fields its TypeScript type declares;
  \<^item> every effect (broker command, insert, status write) is appended to a trace, in the
    order the source performs it; an ack or a nack that the channel rejects is recorded
    as rejected.
\<close>

subsection \<open>Data\<close>

datatype DeckGenerationTone = concise | standard | deep

record DeckGenerationInput =
  deckId :: string
  deckName :: string
  deckSubject :: string
  userId :: string
  content :: string
  goal :: "string option"
  tone :: "DeckGenerationTone option"

record DeckGenerationPayload = DeckGenerationInput +
  jobId :: string

record Card =
  question :: string
  answer :: string

record GeneratedCard = Card +
  difficulty :: "string option"
  tags :: "string list option"

datatype DeckGenerationStatus =
    Queued string
  | Processing string
  | Completed string "Card list"
  | Failed string

datatype status_state = queued | processing | completed | failed

fun state :: "DeckGenerationStatus \<Rightarrow> status_state" where
  "state (Queued m) = queued"
| "state (Processing m) = processing"
| "state (Completed m cs) = completed"
| "state (Failed m) = failed"

datatype error =
    ConnectError
  | CreateChannelError
  | AssertQueueError
  | ConsumeError
  | GenerateCardsError
  | InsertError
  | AckError
  | NackError
  | Error string

datatype body = Json DeckGenerationPayload | Unparsable string

definition JSON_stringify :: "DeckGenerationPayload \<Rightarrow> body" where
  "JSON_stringify payload = Json payload"

fun JSON_parse :: "body \<Rightarrow> DeckGenerationPayload option" where
  "JSON_parse (Json payload) = Some payload"
| "JSON_parse (Unparsable t) = None"

record ConsumeMessage =
  message_content :: body
  messageId :: "string option"

datatype field_value = Str string | Num int | Null | StrList "string list"

type_synonym fields = "(string \<times> field_value) list"

record GenerateCardsInput =
  gc_deckName :: string
  gc_deckSubject :: string
  gc_content :: string
  gc_goal :: "string option"
  gc_tone :: "DeckGenerationTone option"

datatype event =
    Connect
  | CreateChannel
  | AssertQueue string bool
  | SendToQueue string body bool
  | Consume string
  | Ack ConsumeMessage
  | AckRejected ConsumeMessage
  | Nack ConsumeMessage bool bool
  | NackRejected ConsumeMessage bool bool
  | GenerateCards GenerateCardsInput
  | Insert fields
  | SetStatus string DeckGenerationStatus

datatype ChannelModel = ChannelModel

datatype Channel = Channel

record world =
  connect_ok :: bool
  createChannel_ok :: bool
  assertQueue_ok :: bool
  consume_ok :: bool
  generateCards :: "GenerateCardsInput \<Rightarrow> error + GeneratedCard list"
  insert_ok :: "fields \<Rightarrow> bool"
  ack_ok :: bool
  nack_ok :: bool

text \<open>
  The async methods give up control at every \<^verbatim>\<open>await\<close>. A call that has started
  and not yet finished is a task: the await at which it is suspended, together with
  what is needed to continue (who called init, who called startConsumer, the job
  identifier enqueue will return).
\<close>

datatype call = CallInit | CallEnqueue DeckGenerationInput | CallStartConsumer

datatype startConsumer_caller = ScTop | ScEnqueue string

datatype init_caller = InitTop | InitEnqueue DeckGenerationInput | InitStartConsumer startConsumer_caller

datatype task =
    AwaitConnect init_caller
  | AwaitCreateChannel init_caller
  | AwaitAssertQueue init_caller
  | AwaitInit init_caller "error + unit"
  | AwaitConsume startConsumer_caller
  | AwaitStartConsumer string "error + unit"
  | Finished "error + string option"

record DeckGenerationQueue =
  connection :: "ChannelModel option"
  channel :: "Channel option"
  isConsuming :: bool
  statuses :: "string \<rightharpoonup> DeckGenerationStatus"

record system = DeckGenerationQueue +
  generated :: nat
  pending :: "ConsumeMessage list"
  trace :: "event list"
  inflight :: "task list"

definition queueName :: string where
  "queueName = ''deck-generation''"

definition queued_message :: string where
  "queued_message = ''Conte'' @ [CHR 0xC3, CHR 0xBA] @ ''do enviado para a fila de gera''
     @ [CHR 0xC3, CHR 0xA7, CHR 0xC3, CHR 0xA3] @ ''o.''"

definition processing_message :: string where
  "processing_message = ''Processando gera'' @ [CHR 0xC3, CHR 0xA7, CHR 0xC3, CHR 0xA3]
     @ ''o na fila RabbitMQ...''"

definition completed_message :: string where
  "completed_message = ''Cartas geradas e adicionadas ao baralho.''"

definition failed_message :: string where
  "failed_message = ''Falha ao processar a gera'' @ [CHR 0xC3, CHR 0xA7, CHR 0xC3, CHR 0xA3]
     @ ''o de flashcards.''"

definition new_queue :: system where
  "new_queue =
     \<lparr>connection = None, channel = None, isConsuming = False, statuses = Map.empty,
      generated = 0, pending = [], trace = [], inflight = []\<rparr>"

subsection \<open>Primitive effects\<close>

definition emit :: "event \<Rightarrow> system \<Rightarrow> system" where
  "emit e s = s\<lparr>trace := trace s @ [e]\<rparr>"

definition generate :: "(nat \<Rightarrow> string) \<Rightarrow> system \<Rightarrow> string \<times> system" where
  "generate gen s = (gen (generated s), s\<lparr>generated := Suc (generated s)\<rparr>)"

definition statuses_set :: "string \<Rightarrow> DeckGenerationStatus \<Rightarrow> system \<Rightarrow> system" where
  "statuses_set k v s = emit (SetStatus k v) (s\<lparr>statuses := (statuses s)(k \<mapsto> v)\<rparr>)"

definition getStatus :: "system \<Rightarrow> string \<Rightarrow> DeckGenerationStatus option" where
  "getStatus s j = statuses s j"

definition sendToQueue :: "string \<Rightarrow> body \<Rightarrow> bool \<Rightarrow> system \<Rightarrow> system" where
  "sendToQueue q b persistent s =
     emit (SendToQueue q b persistent)
       (s\<lparr>pending := pending s @ [\<lparr>message_content = b, messageId = None\<rparr>]\<rparr>)"

definition ack :: "world \<Rightarrow> ConsumeMessage \<Rightarrow> system \<Rightarrow> (error + unit) \<times> system" where
  "ack w m s =
     (if ack_ok w then (Inr (), emit (Ack m) s) else (Inl AckError, emit (AckRejected m) s))"

definition nack ::
  "world \<Rightarrow> ConsumeMessage \<Rightarrow> bool \<Rightarrow> bool \<Rightarrow> system \<Rightarrow> (error + unit) \<times> system" where
  "nack w m allUpTo requeue s =
     (if nack_ok w then (Inr (), emit (Nack m allUpTo requeue) s)
      else (Inl NackError, emit (NackRejected m allUpTo requeue) s))"

subsection \<open>init, startConsumer, enqueue\<close>

definition init :: "world \<Rightarrow> system \<Rightarrow> (error + unit) \<times> system" where
  "init w s =
     (case channel s of
        Some ch \<Rightarrow> (Inr (), s)
      | None \<Rightarrow>
          if connect_ok w then
            let s1 = emit Connect (s\<lparr>connection := Some ChannelModel\<rparr>) in
            if createChannel_ok w then
              let s2 = emit CreateChannel (s1\<lparr>channel := Some Channel\<rparr>) in
              if assertQueue_ok w then (Inr (), emit (AssertQueue queueName True) s2)
              else (Inl AssertQueueError, s2)
            else (Inl CreateChannelError, s1)
          else (Inl ConnectError, s))"

definition ensure_channel :: "world \<Rightarrow> system \<Rightarrow> (error + unit) \<times> system" where
  "ensure_channel w s = (case channel s of None \<Rightarrow> init w s | Some ch \<Rightarrow> (Inr (), s))"

definition startConsumer :: "world \<Rightarrow> system \<Rightarrow> (error + unit) \<times> system" where
  "startConsumer w s =
     (case ensure_channel w s of
        (Inl e, s0) \<Rightarrow> (Inl e, s0)
      | (Inr u, s0) \<Rightarrow>
          if channel s0 = None \<or> isConsuming s0 then (Inr (), s0)
          else
            let s1 = s0\<lparr>isConsuming := True\<rparr> in
            if consume_ok w then (Inr (), emit (Consume queueName) s1)
            else (Inl ConsumeError, s1))"

definition enqueue ::
  "(nat \<Rightarrow> string) \<Rightarrow> world \<Rightarrow> DeckGenerationInput \<Rightarrow> system \<Rightarrow> (error + string) \<times> system" where
  "enqueue gen w input s =
     (case ensure_channel w s of
        (Inl e, s0) \<Rightarrow> (Inl e, s0)
      | (Inr u, s0) \<Rightarrow>
          (case channel s0 of
             None \<Rightarrow> (Inl (Error ''RabbitMQ channel is not available''), s0)
           | Some ch \<Rightarrow>
               let (j, s1) = generate gen s0;
                   payload = \<lparr>deckId = deckId input, deckName = deckName input,
                              deckSubject = deckSubject input, userId = userId input,
                              content = content input, goal = goal input, tone = tone input,
                              jobId = j\<rparr>;
                   s2 = statuses_set j (Queued queued_message) s1;
                   s3 = sendToQueue queueName (JSON_stringify payload) True s2
               in if isConsuming s3 then (Inr j, s3)
                  else (case startConsumer w s3 of
                          (Inl e, s4) \<Rightarrow> (Inl e, s4)
                        | (Inr u, s4) \<Rightarrow> (Inr j, s4))))"

subsection \<open>init, startConsumer and enqueue, one await at a time\<close>

text \<open>
  The same three methods cut at their awaits. \<open>start\<close> runs a call up to its first
  await (or to its end when it meets none); \<open>resume\<close> continues a suspended call
  from the await it is at, given whether the awaited operation succeeded, up to the next
  await. Between two of these steps any other call may run. An \<^verbatim>\<open>await\<close> on the
  promise of \<^verbatim>\<open>init()\<close> or \<^verbatim>\<open>startConsumer()\<close> is a step of its own
  (\<open>AwaitInit\<close>, \<open>AwaitStartConsumer\<close>): the caller continues in a later turn than
  the callee ends.
\<close>

definition init_settled :: "init_caller \<Rightarrow> error + unit \<Rightarrow> task" where
  "init_settled c r =
     (case c of
        InitTop \<Rightarrow> Finished (case r of Inl e \<Rightarrow> Inl e | Inr u \<Rightarrow> Inr None)
      | InitEnqueue input \<Rightarrow> AwaitInit c r
      | InitStartConsumer sc \<Rightarrow> AwaitInit c r)"

definition init_start :: "init_caller \<Rightarrow> system \<Rightarrow> task \<times> system" where
  "init_start c s =
     (case channel s of
        Some ch \<Rightarrow> (init_settled c (Inr ()), s)
      | None \<Rightarrow> (AwaitConnect c, s))"

definition startConsumer_settled :: "startConsumer_caller \<Rightarrow> error + unit \<Rightarrow> task" where
  "startConsumer_settled c r =
     (case c of
        ScTop \<Rightarrow> Finished (case r of Inl e \<Rightarrow> Inl e | Inr u \<Rightarrow> Inr None)
      | ScEnqueue j \<Rightarrow> AwaitStartConsumer j r)"

definition startConsumer_guard :: "startConsumer_caller \<Rightarrow> system \<Rightarrow> task \<times> system" where
  "startConsumer_guard c s =
     (if channel s = None \<or> isConsuming s then (startConsumer_settled c (Inr ()), s)
      else (AwaitConsume c, s\<lparr>isConsuming := True\<rparr>))"

definition startConsumer_start :: "startConsumer_caller \<Rightarrow> system \<Rightarrow> task \<times> system" where
  "startConsumer_start c s =
     (case channel s of
        None \<Rightarrow> init_start (InitStartConsumer c) s
      | Some ch \<Rightarrow> startConsumer_guard c s)"

definition enqueue_submit ::
  "(nat \<Rightarrow> string) \<Rightarrow> DeckGenerationInput \<Rightarrow> system \<Rightarrow> task \<times> system" where
  "enqueue_submit gen input s =
     (case channel s of
        None \<Rightarrow> (Finished (Inl (Error ''RabbitMQ channel is not available'')), s)
      | Some ch \<Rightarrow>
          let (j, s1) = generate gen s;
              payload = \<lparr>deckId = deckId input, deckName = deckName input,
                         deckSubject = deckSubject input, userId = userId input,
                         content = content input, goal = goal input, tone = tone input,
                         jobId = j\<rparr>;
              s2 = statuses_set j (Queued queued_message) s1;
              s3 = sendToQueue queueName (JSON_stringify payload) True s2
          in if isConsuming s3 then (Finished (Inr (Some j)), s3)
             else startConsumer_start (ScEnqueue j) s3)"

definition enqueue_start ::
  "(nat \<Rightarrow> string) \<Rightarrow> DeckGenerationInput \<Rightarrow> system \<Rightarrow> task \<times> system" where
  "enqueue_start gen input s =
     (case channel s of
        None \<Rightarrow> init_start (InitEnqueue input) s
      | Some ch \<Rightarrow> enqueue_submit gen input s)"

definition start :: "(nat \<Rightarrow> string) \<Rightarrow> call \<Rightarrow> system \<Rightarrow> task \<times> system" where
  "start gen c s =
     (case c of
        CallInit \<Rightarrow> init_start InitTop s
      | CallEnqueue input \<Rightarrow> enqueue_start gen input s
      | CallStartConsumer \<Rightarrow> startConsumer_start ScTop s)"

definition resume :: "(nat \<Rightarrow> string) \<Rightarrow> bool \<Rightarrow> task \<Rightarrow> system \<Rightarrow> task \<times> system" where
  "resume gen ok t s =
     (case t of
        AwaitConnect c \<Rightarrow>
          if ok then (AwaitCreateChannel c, emit Connect (s\<lparr>connection := Some ChannelModel\<rparr>))
          else (init_settled c (Inl ConnectError), s)
      | AwaitCreateChannel c \<Rightarrow>
          if ok then (AwaitAssertQueue c, emit CreateChannel (s\<lparr>channel := Some Channel\<rparr>))
          else (init_settled c (Inl CreateChannelError), s)
      | AwaitAssertQueue c \<Rightarrow>
          if ok then (init_settled c (Inr ()), emit (AssertQueue queueName True) s)
          else (init_settled c (Inl AssertQueueError), s)
      | AwaitInit c r \<Rightarrow>
          (case r of
             Inl e \<Rightarrow>
               (case c of
                  InitTop \<Rightarrow> (Finished (Inl e), s)
                | InitEnqueue input \<Rightarrow> (Finished (Inl e), s)
                | InitStartConsumer sc \<Rightarrow> (startConsumer_settled sc (Inl e), s))
           | Inr u \<Rightarrow>
               (case c of
                  InitTop \<Rightarrow> (Finished (Inr None), s)
                | InitEnqueue input \<Rightarrow> enqueue_submit gen input s
                | InitStartConsumer sc \<Rightarrow> startConsumer_guard sc s))
      | AwaitConsume c \<Rightarrow>
          if ok then (startConsumer_settled c (Inr ()), emit (Consume queueName) s)
          else (startConsumer_settled c (Inl ConsumeError), s)
      | AwaitStartConsumer j r \<Rightarrow>
          (case r of Inl e \<Rightarrow> (Finished (Inl e), s) | Inr u \<Rightarrow> (Finished (Inr (Some j)), s))
      | Finished r \<Rightarrow> (Finished r, s))"

text \<open>
  A call that nothing interrupts: started, then resumed with the outcomes of \<open>world\<close>
  until it has finished. Seven resumptions are more than any call needs.
\<close>

definition outcome_for :: "world \<Rightarrow> task \<Rightarrow> bool" where
  "outcome_for w t =
     (case t of
        AwaitConnect c \<Rightarrow> connect_ok w
      | AwaitCreateChannel c \<Rightarrow> createChannel_ok w
      | AwaitAssertQueue c \<Rightarrow> assertQueue_ok w
      | AwaitConsume c \<Rightarrow> consume_ok w
      | AwaitInit c r \<Rightarrow> True
      | AwaitStartConsumer j r \<Rightarrow> True
      | Finished r \<Rightarrow> True)"

fun settle ::
  "(nat \<Rightarrow> string) \<Rightarrow> world \<Rightarrow> nat \<Rightarrow> task \<times> system \<Rightarrow> task \<times> system" where
  "settle gen w 0 ts = ts"
| "settle gen w (Suc n) (t, s) = settle gen w n (resume gen (outcome_for w t) t s)"

definition uninterrupted :: "(nat \<Rightarrow> string) \<Rightarrow> world \<Rightarrow> call \<Rightarrow> system \<Rightarrow> task \<times> system" where
  "uninterrupted gen w c s = settle gen w 7 (start gen c s)"

subsection \<open>handleMessage\<close>

definition flashcard_fields :: "string \<Rightarrow> GeneratedCard \<Rightarrow> DeckGenerationPayload \<Rightarrow> fields" where
  "flashcard_fields i suggestion payload =
     [(''id'', Str i),
      (''question'', Str (question suggestion)),
      (''answer'', Str (answer suggestion)),
      (''user_id'', Str (userId payload)),
      (''deck_id'', Str (deckId payload)),
      (''status'', Str ''new''),
      (''review_count'', Num 0),
      (''last_review_date'', Null),
      (''difficulty'', Str (case difficulty suggestion of Some d \<Rightarrow> d | None \<Rightarrow> ''medium'')),
      (''tags'', StrList (case tags suggestion of Some t \<Rightarrow> t | None \<Rightarrow> []))]"

fun insert_cards ::
  "(nat \<Rightarrow> string) \<Rightarrow> world \<Rightarrow> DeckGenerationPayload \<Rightarrow> GeneratedCard list \<Rightarrow> system
     \<Rightarrow> (error + unit) \<times> system" where
  "insert_cards gen w payload [] s = (Inr (), s)"
| "insert_cards gen w payload (suggestion # rest) s =
     (let (i, s1) = generate gen s;
          row = flashcard_fields i suggestion payload
      in if insert_ok w row then insert_cards gen w payload rest (emit (Insert row) s1)
         else (Inl InsertError, s1))"

definition card_of :: "GeneratedCard \<Rightarrow> Card" where
  "card_of c = \<lparr>question = question c, answer = answer c\<rparr>"

definition generate_input :: "DeckGenerationPayload \<Rightarrow> GenerateCardsInput" where
  "generate_input payload =
     \<lparr>gc_deckName = deckName payload, gc_deckSubject = deckSubject payload,
      gc_content = content payload, gc_goal = goal payload, gc_tone = tone payload\<rparr>"

definition process_payload ::
  "(nat \<Rightarrow> string) \<Rightarrow> world \<Rightarrow> ConsumeMessage \<Rightarrow> DeckGenerationPayload \<Rightarrow> system
     \<Rightarrow> (error + unit) \<times> system" where
  "process_payload gen w message payload s =
     (let s1 = statuses_set (jobId payload) (Processing processing_message) s;
          s2 = emit (GenerateCards (generate_input payload)) s1
      in case generateCards w (generate_input payload) of
           Inl e \<Rightarrow> (Inl e, s2)
         | Inr cards \<Rightarrow>
             (case insert_cards gen w payload cards s2 of
                (Inl e, s3) \<Rightarrow> (Inl e, s3)
              | (Inr u, s3) \<Rightarrow>
                  ack w message
                    (statuses_set (jobId payload)
                       (Completed completed_message (map card_of cards)) s3)))"

definition failure_key :: "DeckGenerationPayload option \<Rightarrow> ConsumeMessage \<Rightarrow> string" where
  "failure_key payload message =
     (case payload of
        Some p \<Rightarrow> jobId p
      | None \<Rightarrow> (case messageId message of Some i \<Rightarrow> i | None \<Rightarrow> ''unknown''))"

definition on_error ::
  "world \<Rightarrow> DeckGenerationPayload option \<Rightarrow> ConsumeMessage \<Rightarrow> system
     \<Rightarrow> (error + unit) \<times> system" where
  "on_error w payload message s =
     nack w message False False
       (statuses_set (failure_key payload message) (Failed failed_message) s)"

definition handleMessage ::
  "(nat \<Rightarrow> string) \<Rightarrow> world \<Rightarrow> ConsumeMessage \<Rightarrow> system \<Rightarrow> (error + unit) \<times> system" where
  "handleMessage gen w message s =
     (case channel s of
        None \<Rightarrow> (Inr (), s)
      | Some ch \<Rightarrow>
          (case JSON_parse (message_content message) of
             None \<Rightarrow> on_error w None message s
           | Some payload \<Rightarrow>
               (case process_payload gen w message payload s of
                  (Inl e, s') \<Rightarrow> on_error w (Some payload) message s'
                | (Inr u, s') \<Rightarrow> (Inr (), s'))))"

subsection \<open>The consumer callback and executions of the system\<close>

text \<open>
  The callback registered by \<^verbatim>\<open>startConsumer\<close> ignores a null delivery and hands every
  other one to \<^verbatim>\<open>handleMessage\<close>. The broker delivers the oldest pending message to
  the callback once a consumer is subscribed; both an ack and a nack without requeue remove
  the message, so a message is delivered at most once, and the callback handles one
  delivery to its end before the next.

  An execution is a list of steps. \<open>Init\<close>, \<open>Enqueue\<close> and \<open>StartConsumer\<close> are calls
  that run to their end with nothing in between, with the outcomes of their \<open>world\<close>.
  \<open>Call\<close> starts a call and leaves it suspended among the calls in flight, and
  \<open>Resume i ok\<close> continues the i-th of them by one await, so that calls overlap in any
  order the event loop allows. The trace keeps the order of the effects inside a step, so a
  property of every prefix of the trace also covers the points in the middle of a step.
\<close>

definition consumer_callback ::
  "(nat \<Rightarrow> string) \<Rightarrow> world \<Rightarrow> ConsumeMessage option \<Rightarrow> system \<Rightarrow> (error + unit) \<times> system" where
  "consumer_callback gen w message s =
     (case message of None \<Rightarrow> (Inr (), s) | Some m \<Rightarrow> handleMessage gen w m s)"

definition deliver :: "(nat \<Rightarrow> string) \<Rightarrow> world \<Rightarrow> system \<Rightarrow> system" where
  "deliver gen w s =
     (if Consume queueName \<in> set (trace s) then
        (case pending s of
           [] \<Rightarrow> s
         | m # ms \<Rightarrow> snd (consumer_callback gen w (Some m) (s\<lparr>pending := ms\<rparr>)))
      else s)"

datatype step =
    Init world
  | Enqueue world DeckGenerationInput
  | StartConsumer world
  | Deliver world
  | Call call
  | Resume nat bool

fun exec :: "(nat \<Rightarrow> string) \<Rightarrow> step \<Rightarrow> system \<Rightarrow> system" where
  "exec gen (Init w) s = snd (init w s)"
| "exec gen (Enqueue w input) s = snd (enqueue gen w input s)"
| "exec gen (StartConsumer w) s = snd (startConsumer w s)"
| "exec gen (Deliver w) s = deliver gen w s"
| "exec gen (Call c) s =
     (case start gen c s of (t, s') \<Rightarrow> s'\<lparr>inflight := inflight s' @ [t]\<rparr>)"
| "exec gen (Resume i ok) s =
     (if i < length (inflight s) then
        (case resume gen ok (inflight s ! i) s of
           (t, s') \<Rightarrow> s'\<lparr>inflight := (inflight s')[i := t]\<rparr>)
      else s)"

fun run :: "(nat \<Rightarrow> string) \<Rightarrow> step list \<Rightarrow> system \<Rightarrow> system" where
  "run gen [] s = s"
| "run gen (st # sts) s = run gen sts (exec gen st s)"

fun handle_all ::
  "(nat \<Rightarrow> string) \<Rightarrow> (world \<times> ConsumeMessage) list \<Rightarrow> system \<Rightarrow> system" where
  "handle_all gen [] s = s"
| "handle_all gen ((w, m) # ds) s = handle_all gen ds (snd (handleMessage gen w m s))"

subsection \<open>Observations on states and traces\<close>

text \<open>The states written for one key, in the order of the writes.\<close>

fun history :: "string \<Rightarrow> event list \<Rightarrow> status_state list" where
  "history j [] = []"
| "history j (SetStatus k v # es) = (if k = j then state v # history j es else history j es)"
| "history j (e # es) = history j es"

fun terminal :: "status_state \<Rightarrow> bool" where
  "terminal completed = True"
| "terminal failed = True"
| "terminal st = False"

text \<open>The position of a state in the life cycle queued, processing, then completed or failed.\<close>

fun rank :: "status_state \<Rightarrow> nat" where
  "rank queued = 0"
| "rank processing = 1"
| "rank completed = 2"
| "rank failed = 2"

text \<open>The key under which the handler reports on a message.\<close>

definition status_key :: "ConsumeMessage \<Rightarrow> string" where
  "status_key m = failure_key (JSON_parse (message_content m)) m"

text \<open>
  The status writes for one key together with the rejected acks of messages reported under
  that key (\<open>None\<close>), in the order of the trace.
\<close>

fun lifecycle :: "string \<Rightarrow> event list \<Rightarrow> status_state option list" where
  "lifecycle j [] = []"
| "lifecycle j (SetStatus k v # es) =
     (if k = j then Some (state v) # lifecycle j es else lifecycle j es)"
| "lifecycle j (AckRejected m # es) =
     (if status_key m = j then None # lifecycle j es else lifecycle j es)"
| "lifecycle j (e # es) = lifecycle j es"

text \<open>Steps that are whole calls, so that no two calls overlap.\<close>

fun whole_call :: "step \<Rightarrow> bool" where
  "whole_call (Call c) = False"
| "whole_call (Resume i ok) = False"
| "whole_call st = True"

text \<open>
  Whether a whole call, made in state \<open>s\<close>, reaches createChannel and has it rejected, and
  the number of calls of an execution for which this is so.
\<close>

definition init_createChannel_rejected :: "world \<Rightarrow> system \<Rightarrow> bool" where
  "init_createChannel_rejected w s =
     (case channel s of
        Some ch \<Rightarrow> False
      | None \<Rightarrow> if connect_ok w then (if createChannel_ok w then False else True) else False)"

fun createChannel_rejected :: "step \<Rightarrow> system \<Rightarrow> bool" where
  "createChannel_rejected (Init w) s = init_createChannel_rejected w s"
| "createChannel_rejected (Enqueue w input) s = init_createChannel_rejected w s"
| "createChannel_rejected (StartConsumer w) s = init_createChannel_rejected w s"
| "createChannel_rejected st s = False"

fun createChannel_rejections :: "(nat \<Rightarrow> string) \<Rightarrow> step list \<Rightarrow> system \<Rightarrow> nat" where
  "createChannel_rejections gen [] s = 0"
| "createChannel_rejections gen (st # sts) s =
     (if createChannel_rejected st s then 1 else 0)
       + createChannel_rejections gen sts (exec gen st s)"

fun awaits_consume :: "task \<Rightarrow> bool" where
  "awaits_consume (AwaitConsume c) = True"
| "awaits_consume t = False"

text \<open>
  The rows the insert loop builds for a card list when \<open>n\<close> identifiers have been drawn
  before it starts: one row per card, in order, each with the next identifier.
\<close>

definition rows_for ::
  "(nat \<Rightarrow> string) \<Rightarrow> DeckGenerationPayload \<Rightarrow> nat \<Rightarrow> GeneratedCard list \<Rightarrow> fields list" where
  "rows_for gen payload n cards =
     map2 (\<lambda>i c. flashcard_fields (gen i) c payload) [n..<n + length cards] cards"

text \<open>
  The invariant of executions that start with an empty queue: every pending message carries
  a payload whose job has been written once, as queued; the pending messages report under
  distinct keys; the writes of every key are none, or Queued alone, or a whole life cycle
  (one in which the ack was rejected goes on from Completed to Failed); and a key that the
  generator has not produced has no writes.
\<close>

definition jobs_inv :: "(nat \<Rightarrow> string) \<Rightarrow> system \<Rightarrow> bool" where
  "jobs_inv gen s \<longleftrightarrow>
     (\<forall>m\<in>set (pending s). \<exists>p. message_content m = Json p \<and>
        lifecycle (jobId p) (trace s) = [Some queued]) \<and>
     distinct (map status_key (pending s)) \<and>
     (\<forall>j. lifecycle j (trace s) \<in>
        {[], [Some queued], [Some queued, Some processing, Some completed],
         [Some queued, Some processing, Some failed],
         [Some queued, Some processing, Some completed, None, Some failed]}) \<and>
     (\<forall>j. (\<forall>n<generated s. j \<noteq> gen n) \<longrightarrow> lifecycle j (trace s) = [])"

text \<open>
  What a step does to the jobs: nothing (\<open>quiet\<close>), or the submission of one new job
  (\<open>submits\<close>): a fresh identifier is drawn, Queued is written under it and the job's
  message joins the broker queue.
\<close>

definition quiet :: "system \<Rightarrow> system \<Rightarrow> bool" where
  "quiet s s' \<longleftrightarrow>
     pending s' = pending s \<and> generated s' = generated s \<and>
     (\<forall>j. lifecycle j (trace s') = lifecycle j (trace s))"

definition submits :: "(nat \<Rightarrow> string) \<Rightarrow> system \<Rightarrow> system \<Rightarrow> bool" where
  "submits gen s s' \<longleftrightarrow>
     generated s' = Suc (generated s) \<and>
     (\<exists>p. jobId p = gen (generated s) \<and>
        pending s' = pending s @ [\<lparr>message_content = Json p, messageId = None\<rparr>]) \<and>
     (\<forall>j. lifecycle j (trace s') =
        lifecycle j (trace s) @ (if j = gen (generated s) then [Some queued] else []))"

subsection \<open>The synchronous generation path (src/app/src/main/controllers/api/decks.controller.ts)\<close>

definition generateCardsWithFallback ::
  "world \<Rightarrow> GenerateCardsInput \<Rightarrow> error + GeneratedCard list" where
  "generateCardsWithFallback w input =
     (case generateCards w input of
        Inl e \<Rightarrow> Inl e
      | Inr result \<Rightarrow>
          if length result > 0 then Inr result
          else Inl (Error ''Erro ao gerar flashcards.''))"

subsection \<open>Concrete scenarios\<close>

definition example_gen :: "nat \<Rightarrow> string" where
  "example_gen n = ''id-'' @ replicate n (CHR ''i'')"

definition example_input :: DeckGenerationInput where
  "example_input =
     \<lparr>deckId = ''deck-1'', deckName = ''Biology'', deckSubject = ''Plants'', userId = ''user-1'',
      content = ''Photosynthesis converts light into chemical energy.'', goal = None,
      tone = None\<rparr>"

definition example_card :: GeneratedCard where
  "example_card =
     \<lparr>question = ''What does photosynthesis convert?'', answer = ''Light into chemical energy'',
      difficulty = None, tags = None\<rparr>"

definition example_world :: "(error + GeneratedCard list) \<Rightarrow> world" where
  "example_world result =
     \<lparr>connect_ok = True, createChannel_ok = True, assertQueue_ok = True, consume_ok = True,
      generateCards = (\<lambda>input. result), insert_ok = (\<lambda>row. True), ack_ok = True,
      nack_ok = True\<rparr>"

definition no_channel_world :: world where
  "no_channel_world = (example_world (Inr []))\<lparr>createChannel_ok := False\<rparr>"

definition no_insert_world :: world where
  "no_insert_world = (example_world (Inr [example_card]))\<lparr>insert_ok := (\<lambda>row. False)\<rparr>"

definition second_card :: GeneratedCard where
  "second_card =
     \<lparr>question = ''Where does photosynthesis take place?'', answer = ''In the chloroplasts'',
      difficulty = Some ''hard'', tags = Some [''biology'', ''cells'']\<rparr>"

definition closed_channel_world :: "(error + GeneratedCard list) \<Rightarrow> world" where
  "closed_channel_world result = (example_world result)\<lparr>ack_ok := False, nack_ok := False\<rparr>"

definition example_payload :: DeckGenerationPayload where
  "example_payload =
     \<lparr>deckId = ''deck-1'', deckName = ''Biology'', deckSubject = ''Plants'', userId = ''user-1'',
      content = ''Photosynthesis converts light into chemical energy.'', goal = None,
      tone = None, jobId = ''job-1''\<rparr>"

definition example_message :: ConsumeMessage where
  "example_message = \<lparr>message_content = Json example_payload, messageId = None\<rparr>"

definition unparsable_message :: "string option \<Rightarrow> ConsumeMessage" where
  "unparsable_message i = \<lparr>message_content = Unparsable ''{'', messageId = i\<rparr>"

definition overlapping_enqueues :: "step list" where
  "overlapping_enqueues =
     [Call (CallEnqueue example_input), Call (CallEnqueue example_input),
      Resume 0 True, Resume 1 True, Resume 0 True, Resume 1 True, Resume 0 True, Resume 1 True,
      Resume 0 True, Resume 1 True, Resume 0 True, Resume 1 True, Resume 0 True, Resume 1 True]"

definition overlapping_execution :: "step list" where
  "overlapping_execution =
     overlapping_enqueues
       @ [Deliver (example_world (Inr [example_card])),
          Deliver (example_world (Inl GenerateCardsError))]"

definition sequential_calls :: "step list" where
  "sequential_calls =
     [Enqueue no_channel_world example_input,
      Enqueue (example_world (Inr [example_card])) example_input,
      Init no_channel_world,
      StartConsumer (example_world (Inr [example_card])),
      Enqueue (example_world (Inr [example_card])) example_input]"

definition connected_queue :: system where
  "connected_queue = snd (init (example_world (Inr [])) new_queue)"

section \<open>Auxiliary facts\<close>

subsection \<open>What the primitive effects change, and the insert loop\<close>

lemma emit_fields [simp]:
  "trace (emit e s) = trace s @ [e]"
  "statuses (emit e s) = statuses s"
  "channel (emit e s) = channel s"
  "connection (emit e s) = connection s"
  "isConsuming (emit e s) = isConsuming s"
  "generated (emit e s) = generated s"
  "pending (emit e s) = pending s"
  "inflight (emit e s) = inflight s"
  by (simp_all add: emit_def)

lemma statuses_set_fields [simp]:
  "trace (statuses_set k v s) = trace s @ [SetStatus k v]"
  "statuses (statuses_set k v s) = (statuses s)(k \<mapsto> v)"
  "channel (statuses_set k v s) = channel s"
  "connection (statuses_set k v s) = connection s"
  "isConsuming (statuses_set k v s) = isConsuming s"
  "generated (statuses_set k v s) = generated s"
  "pending (statuses_set k v s) = pending s"
  "inflight (statuses_set k v s) = inflight s"
  by (simp_all add: statuses_set_def)

lemma ack_fields [simp]:
  "statuses (snd (ack w m s)) = statuses s"
  "channel (snd (ack w m s)) = channel s"
  "connection (snd (ack w m s)) = connection s"
  "isConsuming (snd (ack w m s)) = isConsuming s"
  "generated (snd (ack w m s)) = generated s"
  "pending (snd (ack w m s)) = pending s"
  "inflight (snd (ack w m s)) = inflight s"
  "trace (snd (ack w m s)) = trace s @ [if ack_ok w then Ack m else AckRejected m]"
  by (simp_all add: ack_def)

lemma nack_fields [simp]:
  "statuses (snd (nack w m a q s)) = statuses s"
  "channel (snd (nack w m a q s)) = channel s"
  "connection (snd (nack w m a q s)) = connection s"
  "isConsuming (snd (nack w m a q s)) = isConsuming s"
  "generated (snd (nack w m a q s)) = generated s"
  "pending (snd (nack w m a q s)) = pending s"
  "inflight (snd (nack w m a q s)) = inflight s"
  "trace (snd (nack w m a q s)) = trace s @ [if nack_ok w then Nack m a q else NackRejected m a q]"
  by (simp_all add: nack_def)

lemma sendToQueue_fields [simp]:
  "trace (sendToQueue q b p s) = trace s @ [SendToQueue q b p]"
  "statuses (sendToQueue q b p s) = statuses s"
  "channel (sendToQueue q b p s) = channel s"
  "connection (sendToQueue q b p s) = connection s"
  "isConsuming (sendToQueue q b p s) = isConsuming s"
  "generated (sendToQueue q b p s) = generated s"
  "pending (sendToQueue q b p s) = pending s @ [\<lparr>message_content = b, messageId = None\<rparr>]"
  "inflight (sendToQueue q b p s) = inflight s"
  by (simp_all add: sendToQueue_def)

lemma rows_for_Nil [simp]: "rows_for gen payload n [] = []"
  by (simp add: rows_for_def)

lemma rows_for_Cons [simp]:
  "rows_for gen payload n (c # cs) =
     flashcard_fields (gen n) c payload # rows_for gen payload (Suc n) cs"
proof -
  have "[n..<n + length (c # cs)] = n # [Suc n..<Suc n + length cs]"
    by (simp add: upt_conv_Cons del: upt_Suc)
  then show ?thesis by (simp add: rows_for_def del: upt_Suc)
qed

lemma length_rows_for [simp]: "length (rows_for gen payload n cards) = length cards"
  by (simp add: rows_for_def)

lemma insert_cards_ok:
  "list_all (insert_ok w) (rows_for gen payload (generated s) cards) \<Longrightarrow>
   insert_cards gen w payload cards s =
     (Inr (), s\<lparr>generated := generated s + length cards,
                trace := trace s @ map Insert (rows_for gen payload (generated s) cards)\<rparr>)"
proof (induction cards arbitrary: s)
  case Nil
  then show ?case by simp
next
  case (Cons c cs)
  let ?s1 = "emit (Insert (flashcard_fields (gen (generated s)) c payload))
               (s\<lparr>generated := Suc (generated s)\<rparr>)"
  from Cons.prems have "list_all (insert_ok w) (rows_for gen payload (generated ?s1) cs)"
    by simp
  from Cons.IH [OF this] Cons.prems show ?case
    by (simp add: generate_def emit_def)
qed

lemma insert_cards_frame:
  "insert_cards gen w payload cards s = (r, s') \<Longrightarrow>
   statuses s' = statuses s \<and> channel s' = channel s \<and> connection s' = connection s \<and>
   isConsuming s' = isConsuming s \<and> pending s' = pending s \<and> inflight s' = inflight s \<and>
   generated s \<le> generated s' \<and>
   (\<exists>n\<le>length cards.
      trace s' = trace s @ map Insert (take n (rows_for gen payload (generated s) cards)))"
proof (induction cards arbitrary: s)
  case Nil
  then show ?case by auto
next
  case (Cons c cs)
  let ?row = "flashcard_fields (gen (generated s)) c payload"
  let ?s1 = "emit (Insert ?row) (s\<lparr>generated := Suc (generated s)\<rparr>)"
  show ?case
  proof (cases "insert_ok w ?row")
    case True
    with Cons.prems have "insert_cards gen w payload cs ?s1 = (r, s')"
      by (simp add: generate_def)
    from Cons.IH [OF this] obtain n where
      f: "statuses s' = statuses s" "channel s' = channel s" "connection s' = connection s"
        "isConsuming s' = isConsuming s" "pending s' = pending s" "inflight s' = inflight s"
        "generated s \<le> generated s'"
      and n: "n \<le> length cs"
        "trace s' = trace s @ Insert ?row # map Insert (take n (rows_for gen payload (Suc (generated s)) cs))"
      by auto
    from n have "Suc n \<le> length (c # cs) \<and>
      trace s' = trace s @ map Insert (take (Suc n) (rows_for gen payload (generated s) (c # cs)))"
      by simp
    with f show ?thesis by blast
  next
    case False
    with Cons.prems have "s' = s\<lparr>generated := Suc (generated s)\<rparr>"
      by (simp add: generate_def)
    then have "statuses s' = statuses s \<and> channel s' = channel s \<and> connection s' = connection s \<and>
      isConsuming s' = isConsuming s \<and> pending s' = pending s \<and> inflight s' = inflight s \<and>
      generated s \<le> generated s' \<and>
      trace s' = trace s @ map Insert (take 0 (rows_for gen payload (generated s) (c # cs)))"
      by simp
    then show ?thesis by blast
  qed
qed

lemma insert_cards_fails:
  "\<not> list_all (insert_ok w) (rows_for gen payload (generated s) cards) \<Longrightarrow>
   fst (insert_cards gen w payload cards s) = Inl InsertError"
proof (induction cards arbitrary: s)
  case Nil
  then show ?case by simp
next
  case (Cons c cs)
  then show ?case
    by (cases "insert_ok w (flashcard_fields (gen (generated s)) c payload)")
       (simp_all add: generate_def)
qed

subsection \<open>Processing one payload\<close>

lemma process_payload_ok:
  assumes "generateCards w (generate_input payload) = Inr cards"
    and "list_all (insert_ok w) (rows_for gen payload (generated s) cards)"
  shows "process_payload gen w message payload s =
     ack w message
       (statuses_set (jobId payload) (Completed completed_message (map card_of cards))
          (s\<lparr>statuses := (statuses s)(jobId payload \<mapsto> Processing processing_message),
             generated := generated s + length cards,
             trace := trace s @ [SetStatus (jobId payload) (Processing processing_message),
                                 GenerateCards (generate_input payload)]
                        @ map Insert (rows_for gen payload (generated s) cards)\<rparr>))"
proof -
  let ?s2 = "emit (GenerateCards (generate_input payload))
               (statuses_set (jobId payload) (Processing processing_message) s)"
  from assms(2) have "list_all (insert_ok w) (rows_for gen payload (generated ?s2) cards)"
    by simp
  from insert_cards_ok [OF this] assms(1) show ?thesis
    by (simp add: process_payload_def Let_def emit_def statuses_set_def)
qed

lemma ack_frame:
  assumes "ack w m s = (r, s')"
  shows "channel s' = channel s \<and> connection s' = connection s \<and>
    isConsuming s' = isConsuming s \<and> pending s' = pending s \<and> inflight s' = inflight s \<and>
    generated s' = generated s \<and> statuses s' = statuses s"
  using assms by (auto simp: ack_def split: if_splits)

lemma nack_frame:
  assumes "nack w m a q s = (r, s')"
  shows "channel s' = channel s \<and> connection s' = connection s \<and>
    isConsuming s' = isConsuming s \<and> pending s' = pending s \<and> inflight s' = inflight s \<and>
    generated s' = generated s \<and> statuses s' = statuses s"
  using assms by (auto simp: nack_def split: if_splits)

lemma process_payload_frame:
  assumes "process_payload gen w message payload s = (r, s')"
  shows "channel s' = channel s \<and> connection s' = connection s \<and>
    isConsuming s' = isConsuming s \<and> pending s' = pending s \<and> inflight s' = inflight s \<and>
    generated s \<le> generated s'"
proof (cases "generateCards w (generate_input payload)")
  case (Inl e)
  with assms show ?thesis
    by (auto simp: process_payload_def Let_def)
next
  case (Inr cards)
  let ?s2 = "emit (GenerateCards (generate_input payload))
               (statuses_set (jobId payload) (Processing processing_message) s)"
  obtain r3 s3 where i: "insert_cards gen w payload cards ?s2 = (r3, s3)"
    by (cases "insert_cards gen w payload cards ?s2")
  from insert_cards_frame [OF i] have f: "channel s3 = channel s" "connection s3 = connection s"
    "isConsuming s3 = isConsuming s" "pending s3 = pending s" "inflight s3 = inflight s"
    "generated s \<le> generated s3"
    by simp_all
  show ?thesis
  proof (cases r3)
    case (Inl e)
    with assms Inr i f show ?thesis
      by (auto simp: process_payload_def Let_def)
  next
    case (Inr u)
    let ?s4 = "statuses_set (jobId payload) (Completed completed_message (map card_of cards)) s3"
    from assms \<open>generateCards w (generate_input payload) = Inr cards\<close> i Inr
    have "ack w message ?s4 = (r, s')"
      by (simp add: process_payload_def Let_def)
    from ack_frame [OF this] f show ?thesis by simp
  qed
qed

lemma process_payload_fails:
  assumes "case generateCards w (generate_input payload) of
             Inl e \<Rightarrow> True
           | Inr cards \<Rightarrow> \<not> list_all (insert_ok w) (rows_for gen payload (generated s) cards)"
  shows "\<exists>e s' pre. process_payload gen w message payload s = (Inl e, s') \<and>
     trace s' = trace s @ pre \<and> Ack message \<notin> set pre \<and>
     (\<forall>k v. SetStatus k v \<in> set pre \<longrightarrow> k = jobId payload \<and> v = Processing processing_message)"
proof (cases "generateCards w (generate_input payload)")
  case (Inl e)
  then show ?thesis
    by (simp add: process_payload_def Let_def)
next
  case (Inr cards)
  let ?s2 = "emit (GenerateCards (generate_input payload))
               (statuses_set (jobId payload) (Processing processing_message) s)"
  obtain r3 s3 where i: "insert_cards gen w payload cards ?s2 = (r3, s3)"
    by (cases "insert_cards gen w payload cards ?s2")
  from assms Inr have "\<not> list_all (insert_ok w) (rows_for gen payload (generated ?s2) cards)"
    by simp
  from insert_cards_fails [OF this] i have r3: "r3 = Inl InsertError" by simp
  from insert_cards_frame [OF i] obtain n where
    "trace s3 = trace s @ [SetStatus (jobId payload) (Processing processing_message),
        GenerateCards (generate_input payload)]
        @ map Insert (take n (rows_for gen payload (generated s) cards))"
    by auto
  with Inr i r3 show ?thesis
    by (auto simp: process_payload_def Let_def)
qed

subsection \<open>The rows of a payload\<close>

lemma rows_for_member:
  "row \<in> set (rows_for gen payload n cards) \<Longrightarrow>
   \<exists>i c. c \<in> set cards \<and> row = flashcard_fields (gen i) c payload"
proof (induction cards arbitrary: n)
  case Nil
  then show ?case by simp
next
  case (Cons a cs)
  from Cons.prems have "row = flashcard_fields (gen n) a payload \<or>
      row \<in> set (rows_for gen payload (Suc n) cs)"
    by simp
  then show ?case
  proof
    assume "row = flashcard_fields (gen n) a payload"
    then show ?thesis by auto
  next
    assume "row \<in> set (rows_for gen payload (Suc n) cs)"
    from Cons.IH [OF this] show ?thesis by auto
  qed
qed

lemma process_payload_inserts:
  assumes "process_payload gen w message payload s = (r, s')"
  shows "\<exists>evs. trace s' = trace s @ evs \<and>
     (\<forall>row. Insert row \<in> set evs \<longrightarrow>
        (\<exists>cards. generateCards w (generate_input payload) = Inr cards \<and>
           row \<in> set (rows_for gen payload (generated s) cards)))"
proof (cases "generateCards w (generate_input payload)")
  case (Inl e)
  with assms have "trace s' = trace s @ [SetStatus (jobId payload) (Processing processing_message),
      GenerateCards (generate_input payload)]"
    by (auto simp: process_payload_def Let_def)
  then show ?thesis by simp
next
  case (Inr cards)
  let ?s2 = "emit (GenerateCards (generate_input payload))
               (statuses_set (jobId payload) (Processing processing_message) s)"
  let ?rows = "rows_for gen payload (generated s) cards"
  obtain r3 s3 where i: "insert_cards gen w payload cards ?s2 = (r3, s3)"
    by (cases "insert_cards gen w payload cards ?s2")
  from insert_cards_frame [OF i] obtain n where
    t3: "trace s3 = trace s @ [SetStatus (jobId payload) (Processing processing_message),
        GenerateCards (generate_input payload)] @ map Insert (take n ?rows)"
    by auto
  have sub: "set (take n ?rows) \<subseteq> set ?rows"
    by (rule set_take_subset)
  show ?thesis
  proof (cases r3)
    case (Inl e)
    with assms Inr i have "s' = s3"
      by (simp add: process_payload_def Let_def)
    with t3 sub Inr show ?thesis by auto
  next
    case (Inr u)
    with assms \<open>generateCards w (generate_input payload) = Inr cards\<close> i
    have "trace s' = trace s3 @ [SetStatus (jobId payload)
        (Completed completed_message (map card_of cards)),
        if ack_ok w then Ack message else AckRejected message]"
      by (auto simp: process_payload_def Let_def ack_def)
    with t3 sub \<open>generateCards w (generate_input payload) = Inr cards\<close> show ?thesis by auto
  qed
qed

lemma connected_queue_eq:
  "connected_queue =
     \<lparr>connection = Some ChannelModel, channel = Some Channel, isConsuming = False,
      statuses = Map.empty, generated = 0, pending = [],
      trace = [Connect, CreateChannel, AssertQueue queueName True], inflight = []\<rparr>"
  by (simp add: connected_queue_def init_def new_queue_def example_world_def emit_def)

lemma handleMessage_ok:
  assumes "channel s = Some ch"
    and "JSON_parse (message_content message) = Some payload"
    and "generateCards w (generate_input payload) = Inr cards"
    and "list_all (insert_ok w) (rows_for gen payload (generated s) cards)"
    and "ack_ok w"
  shows "handleMessage gen w message s =
     (Inr (),
      emit (Ack message)
        (statuses_set (jobId payload) (Completed completed_message (map card_of cards))
           (s\<lparr>statuses := (statuses s)(jobId payload \<mapsto> Processing processing_message),
              generated := generated s + length cards,
              trace := trace s @ [SetStatus (jobId payload) (Processing processing_message),
                                  GenerateCards (generate_input payload)]
                         @ map Insert (rows_for gen payload (generated s) cards)\<rparr>)))"
  using process_payload_ok [OF assms(3,4), of message] assms(1,2,5)
  by (simp add: handleMessage_def ack_def)

subsection \<open>Channel set-up, consumer start and submission\<close>

lemma init_frame:
  "statuses (snd (init w s)) = statuses s \<and> pending (snd (init w s)) = pending s \<and>
   generated (snd (init w s)) = generated s \<and> isConsuming (snd (init w s)) = isConsuming s \<and>
   inflight (snd (init w s)) = inflight s"
  by (simp add: init_def Let_def split: option.split)

lemma init_failure:
  assumes "channel s = None" and "\<not> connect_ok w \<or> \<not> createChannel_ok w"
  shows "\<exists>e s'. init w s = (Inl e, s') \<and> channel s' = None \<and>
     trace s' = trace s @ (if connect_ok w then [Connect] else [])"
  using assms by (auto simp: init_def Let_def)

lemma init_success:
  assumes "init w s = (Inr u, s')"
  shows "\<exists>ch. channel s' = Some ch"
  using assms by (auto simp: init_def Let_def split: option.splits if_splits)

lemma init_trace:
  "\<exists>evs. trace (snd (init w s)) = trace s @ evs \<and>
     set evs \<subseteq> {Connect, CreateChannel, AssertQueue queueName True}"
  by (auto simp: init_def Let_def split: option.split)

lemma ensure_channel_frame:
  "statuses (snd (ensure_channel w s)) = statuses s \<and>
   pending (snd (ensure_channel w s)) = pending s \<and>
   generated (snd (ensure_channel w s)) = generated s \<and>
   isConsuming (snd (ensure_channel w s)) = isConsuming s \<and>
   inflight (snd (ensure_channel w s)) = inflight s"
  using init_frame [of w s] by (simp add: ensure_channel_def split: option.split)

lemma ensure_channel_trace:
  "\<exists>evs. trace (snd (ensure_channel w s)) = trace s @ evs \<and>
     set evs \<subseteq> {Connect, CreateChannel, AssertQueue queueName True}"
  using init_trace [of w s] by (simp add: ensure_channel_def split: option.split)

lemma ensure_channel_success:
  assumes "ensure_channel w s = (Inr u, s')"
  shows "\<exists>ch. channel s' = Some ch"
  using assms init_success [of w s u s']
  by (auto simp: ensure_channel_def split: option.splits)

lemma startConsumer_with_channel:
  assumes "channel s = Some ch"
  shows "startConsumer w s =
     (if isConsuming s then (Inr (), s)
      else if consume_ok w then (Inr (), emit (Consume queueName) (s\<lparr>isConsuming := True\<rparr>))
      else (Inl ConsumeError, s\<lparr>isConsuming := True\<rparr>))"
  using assms by (simp add: startConsumer_def ensure_channel_def Let_def)

lemma enqueue_with_channel:
  assumes "ensure_channel w s = (Inr u, s0)"
  shows "\<exists>r.
     enqueue gen w input s =
       (r,
        s0\<lparr>statuses := (statuses s)(gen (generated s) \<mapsto> Queued queued_message),
           generated := Suc (generated s),
           pending := pending s @
             [\<lparr>message_content = JSON_stringify
                 \<lparr>deckId = deckId input, deckName = deckName input,
                  deckSubject = deckSubject input, userId = userId input,
                  content = content input, goal = goal input, tone = tone input,
                  jobId = gen (generated s)\<rparr>,
               messageId = None\<rparr>],
           isConsuming := True,
           trace := trace s0 @
             [SetStatus (gen (generated s)) (Queued queued_message),
              SendToQueue queueName
                (JSON_stringify
                   \<lparr>deckId = deckId input, deckName = deckName input,
                    deckSubject = deckSubject input, userId = userId input,
                    content = content input, goal = goal input, tone = tone input,
                    jobId = gen (generated s)\<rparr>) True]
             @ (if isConsuming s \<or> \<not> consume_ok w then [] else [Consume queueName])\<rparr>) \<and>
     (r = Inr (gen (generated s)) \<or> r = Inl ConsumeError)"
proof -
  from ensure_channel_success [OF assms] obtain ch where ch: "channel s0 = Some ch" by blast
  from ensure_channel_frame [of w s] assms have
    f: "statuses s0 = statuses s" "pending s0 = pending s" "generated s0 = generated s"
      "isConsuming s0 = isConsuming s"
    by simp_all
  let ?payload = "\<lparr>deckId = deckId input, deckName = deckName input,
                  deckSubject = deckSubject input, userId = userId input,
                  content = content input, goal = goal input, tone = tone input,
                  jobId = gen (generated s)\<rparr>"
  let ?s3 = "sendToQueue queueName (JSON_stringify ?payload) True
               (statuses_set (gen (generated s)) (Queued queued_message)
                  (s0\<lparr>generated := Suc (generated s)\<rparr>))"
  have ch3: "channel ?s3 = Some ch" using ch by simp
  have e: "enqueue gen w input s =
     (if isConsuming ?s3 then (Inr (gen (generated s)), ?s3)
      else (case startConsumer w ?s3 of
              (Inl e, s4) \<Rightarrow> (Inl e, s4)
            | (Inr u, s4) \<Rightarrow> (Inr (gen (generated s)), s4)))"
    using assms ch f by (simp add: enqueue_def generate_def Let_def)
  show ?thesis
  proof (cases "isConsuming s0")
    case True
    with e f have "enqueue gen w input s = (Inr (gen (generated s)), ?s3)" by simp
    with True f show ?thesis
      by (intro exI [of _ "Inr (gen (generated s))"])
         (simp add: sendToQueue_def statuses_set_def emit_def)
  next
    case False
    show ?thesis
    proof (cases "consume_ok w")
      case True
      with e False startConsumer_with_channel [OF ch3, of w] f
      have "enqueue gen w input s =
        (Inr (gen (generated s)), emit (Consume queueName) (?s3\<lparr>isConsuming := True\<rparr>))"
        by simp
      with f True False show ?thesis
        by (intro exI [of _ "Inr (gen (generated s))"])
           (simp add: sendToQueue_def statuses_set_def emit_def)
    next
      case c: False
      with e False startConsumer_with_channel [OF ch3, of w] f
      have "enqueue gen w input s = (Inl ConsumeError, ?s3\<lparr>isConsuming := True\<rparr>)"
        by simp
      with f c False show ?thesis
        by (intro exI [of _ "Inl ConsumeError"])
           (simp add: sendToQueue_def statuses_set_def emit_def)
    qed
  qed
qed

lemma enqueue_ensure_fails:
  assumes "ensure_channel w s = (Inl e, s0)"
  shows "enqueue gen w input s = (Inl e, s0)"
  using assms by (simp add: enqueue_def)

subsection \<open>Statuses of other keys\<close>

lemma process_payload_statuses:
  assumes "process_payload gen w message payload s = (r, s')" and "k \<noteq> jobId payload"
  shows "statuses s' k = statuses s k"
proof (cases "generateCards w (generate_input payload)")
  case (Inl e)
  with assms show ?thesis
    by (auto simp: process_payload_def Let_def)
next
  case (Inr cards)
  let ?s2 = "emit (GenerateCards (generate_input payload))
               (statuses_set (jobId payload) (Processing processing_message) s)"
  obtain r3 s3 where i: "insert_cards gen w payload cards ?s2 = (r3, s3)"
    by (cases "insert_cards gen w payload cards ?s2")
  from insert_cards_frame [OF i] assms(2) have "statuses s3 k = statuses s k"
    by simp
  moreover from assms(1) have "s' = snd (process_payload gen w message payload s)"
    by simp
  ultimately show ?thesis using Inr i assms(2)
    by (cases r3) (simp_all add: process_payload_def Let_def)
qed

lemma handleMessage_other_key:
  assumes "status_key m \<noteq> j"
  shows "statuses (snd (handleMessage gen w m s)) j = statuses s j"
proof (cases "channel s")
  case None
  then show ?thesis by (simp add: handleMessage_def)
next
  case (Some ch)
  show ?thesis
  proof (cases "JSON_parse (message_content m)")
    case None
    with Some assms show ?thesis
      by (simp add: handleMessage_def on_error_def status_key_def)
  next
    case (Some payload)
    with assms have k: "j \<noteq> jobId payload"
      by (auto simp: status_key_def failure_key_def)
    obtain r1 s1 where p: "process_payload gen w m payload s = (r1, s1)"
      by (cases "process_payload gen w m payload s")
    from process_payload_statuses [OF p k] p Some \<open>channel s = Some ch\<close> k show ?thesis
      by (cases r1) (simp_all add: handleMessage_def on_error_def failure_key_def)
  qed
qed

lemma handle_all_other_keys:
  "\<forall>d\<in>set ds. status_key (snd d) \<noteq> j \<Longrightarrow>
   statuses (handle_all gen ds s) j = statuses s j"
proof (induction ds arbitrary: s)
  case Nil
  then show ?case by simp
next
  case (Cons d ds)
  obtain w m where d: "d = (w, m)" by (cases d)
  with Cons.prems have "status_key m \<noteq> j" by simp
  from handleMessage_other_key [OF this] Cons d show ?case by simp
qed

subsection \<open>Connections and channels when calls do not overlap\<close>

lemma init_setup_counts:
  assumes "count_list (trace s) CreateChannel = (if channel s = None then 0 else 1)"
    and "init w s = (r, s')"
  shows "count_list (trace s') CreateChannel = (if channel s' = None then 0 else 1) \<and>
     count_list (trace s') (Consume queueName) = count_list (trace s) (Consume queueName) \<and>
     isConsuming s' = isConsuming s"
  using assms by (auto simp: init_def Let_def split: option.splits if_splits)

lemma init_connect_count:
  assumes "count_list (trace s) Connect = n + (if channel s = None then 0 else 1)"
    and "init w s = (r, s')"
  shows "count_list (trace s') Connect =
     n + (if init_createChannel_rejected w s then 1 else 0)
       + (if channel s' = None then 0 else 1)"
  using assms
  by (auto simp: init_def init_createChannel_rejected_def Let_def split: option.splits if_splits)

lemma ensure_channel_setup_counts:
  assumes "count_list (trace s) CreateChannel = (if channel s = None then 0 else 1)"
    and "ensure_channel w s = (r, s')"
  shows "count_list (trace s') CreateChannel = (if channel s' = None then 0 else 1) \<and>
     count_list (trace s') (Consume queueName) = count_list (trace s) (Consume queueName) \<and>
     isConsuming s' = isConsuming s"
proof (cases "channel s")
  case None
  with assms(2) have "init w s = (r, s')" by (simp add: ensure_channel_def)
  from init_setup_counts [OF assms(1) this] show ?thesis .
next
  case (Some ch)
  with assms show ?thesis by (simp add: ensure_channel_def)
qed

lemma ensure_channel_connect_count:
  assumes "count_list (trace s) Connect = n + (if channel s = None then 0 else 1)"
    and "ensure_channel w s = (r, s')"
  shows "count_list (trace s') Connect =
     n + (if init_createChannel_rejected w s then 1 else 0)
       + (if channel s' = None then 0 else 1)"
proof (cases "channel s")
  case None
  with assms(2) have "init w s = (r, s')" by (simp add: ensure_channel_def)
  from init_connect_count [OF assms(1) this] show ?thesis .
next
  case (Some ch)
  with assms show ?thesis
    by (simp add: ensure_channel_def init_createChannel_rejected_def)
qed

lemma startConsumer_after_ensure:
  assumes "ensure_channel w s = (r0, s0)"
  shows "\<exists>r. startConsumer w s =
     (r, s0\<lparr>isConsuming := (case r0 of Inl e \<Rightarrow> isConsuming s0
                                | Inr u \<Rightarrow> (channel s0 \<noteq> None \<or> isConsuming s0)),
            trace := trace s0 @
              (case r0 of
                 Inl e \<Rightarrow> []
               | Inr u \<Rightarrow> if channel s0 = None \<or> isConsuming s0 \<or> \<not> consume_ok w then []
                           else [Consume queueName])\<rparr>)"
  using assms by (cases r0) (auto simp: startConsumer_def Let_def emit_def)

lemma handleMessage_setup:
  assumes "handleMessage gen w message s = (r, s')"
  shows "channel s' = channel s \<and> isConsuming s' = isConsuming s \<and>
     connection s' = connection s \<and> inflight s' = inflight s \<and>
     (\<exists>evs. trace s' = trace s @ evs \<and> Connect \<notin> set evs \<and> CreateChannel \<notin> set evs \<and>
        Consume queueName \<notin> set evs)"
proof (cases "channel s")
  case None
  with assms show ?thesis by (auto simp: handleMessage_def)
next
  case (Some ch)
  show ?thesis
  proof (cases "JSON_parse (message_content message)")
    case None
    with Some assms have "s' = snd (on_error w None message s)"
      by (simp add: handleMessage_def)
    then show ?thesis by (simp add: on_error_def)
  next
    case (Some payload)
    obtain r1 s1 where p: "process_payload gen w message payload s = (r1, s1)"
      by (cases "process_payload gen w message payload s")
    from process_payload_frame [OF p] have
      f: "channel s1 = channel s" "isConsuming s1 = isConsuming s" "connection s1 = connection s"
        "inflight s1 = inflight s"
      by simp_all
    have "\<exists>evs. trace s1 = trace s @ evs \<and> Connect \<notin> set evs \<and> CreateChannel \<notin> set evs \<and>
        Consume queueName \<notin> set evs"
    proof (cases "generateCards w (generate_input payload)")
      case (Inl e)
      with p show ?thesis by (auto simp: process_payload_def Let_def)
    next
      case (Inr cards)
      let ?s2 = "emit (GenerateCards (generate_input payload))
               (statuses_set (jobId payload) (Processing processing_message) s)"
      obtain r3 s3 where i: "insert_cards gen w payload cards ?s2 = (r3, s3)"
        by (cases "insert_cards gen w payload cards ?s2")
      from insert_cards_frame [OF i] obtain n where
        t: "trace s3 = trace s @ [SetStatus (jobId payload) (Processing processing_message),
            GenerateCards (generate_input payload)]
            @ map Insert (take n (rows_for gen payload (generated s) cards))"
        by auto
      from p have "s1 = snd (process_payload gen w message payload s)" by simp
      with Inr i t show ?thesis
        by (cases r3) (auto simp: process_payload_def Let_def)
    qed
    then obtain evs where
      evs: "trace s1 = trace s @ evs" "Connect \<notin> set evs" "CreateChannel \<notin> set evs"
        "Consume queueName \<notin> set evs"
      by blast
    from assms p Some \<open>channel s = Some ch\<close>
    have "s' = (case r1 of Inl e \<Rightarrow> snd (on_error w (Some payload) message s1) | Inr u \<Rightarrow> s1)"
      by (cases r1) (auto simp: handleMessage_def)
    with f evs show ?thesis
      by (cases r1) (auto simp: on_error_def)
  qed
qed

lemma deliver_setup:
  "channel (deliver gen w s) = channel s \<and> isConsuming (deliver gen w s) = isConsuming s \<and>
   inflight (deliver gen w s) = inflight s \<and>
   (\<exists>evs. trace (deliver gen w s) = trace s @ evs \<and> Connect \<notin> set evs \<and>
      CreateChannel \<notin> set evs \<and> Consume queueName \<notin> set evs)"
proof (cases "Consume queueName \<in> set (trace s)")
  case False
  then show ?thesis by (simp add: deliver_def)
next
  case True
  show ?thesis
  proof (cases "pending s")
    case Nil
    with True show ?thesis by (simp add: deliver_def)
  next
    case (Cons m ms)
    let ?h = "handleMessage gen w m (s\<lparr>pending := ms\<rparr>)"
    have "?h = (fst ?h, snd ?h)" by simp
    from handleMessage_setup [OF this] True Cons show ?thesis
      by (simp add: deliver_def consumer_callback_def)
  qed
qed

lemma exec_setup_counts:
  assumes "count_list (trace s) CreateChannel = (if channel s = None then 0 else 1)"
    and "whole_call st"
  shows "count_list (trace (exec gen st s)) CreateChannel
       = (if channel (exec gen st s) = None then 0 else 1)"
proof (cases st)
  case (Init w)
  have "init w s = (fst (init w s), snd (init w s))" by simp
  from init_setup_counts [OF assms(1) this] Init show ?thesis by simp
next
  case (Enqueue w input)
  obtain r0 s0 where ec: "ensure_channel w s = (r0, s0)"
    by (cases "ensure_channel w s")
  from ensure_channel_setup_counts [OF assms(1) ec] have
    s0: "count_list (trace s0) CreateChannel = (if channel s0 = None then 0 else 1)"
    by simp
  show ?thesis
  proof (cases r0)
    case (Inl e)
    with ec have "enqueue gen w input s = (Inl e, s0)"
      by (simp add: enqueue_ensure_fails)
    with s0 Enqueue show ?thesis by simp
  next
    case (Inr u)
    with ec have "ensure_channel w s = (Inr u, s0)" by simp
    from enqueue_with_channel [OF this, of gen input] s0 Enqueue show ?thesis
      by auto
  qed
next
  case (StartConsumer w)
  obtain r0 s0 where ec: "ensure_channel w s = (r0, s0)"
    by (cases "ensure_channel w s")
  from ensure_channel_setup_counts [OF assms(1) ec] have
    s0: "count_list (trace s0) CreateChannel = (if channel s0 = None then 0 else 1)"
    by simp
  from startConsumer_after_ensure [OF ec] s0 StartConsumer show ?thesis
    by (cases r0) auto
next
  case (Deliver w)
  from deliver_setup [of gen w s] assms Deliver show ?thesis
    by (auto simp: count_list_0_iff)
next
  case (Call c)
  with assms(2) show ?thesis by simp
next
  case (Resume i ok)
  with assms(2) show ?thesis by simp
qed

lemma exec_connect_count:
  assumes "count_list (trace s) Connect = n + (if channel s = None then 0 else 1)"
    and "whole_call st"
  shows "count_list (trace (exec gen st s)) Connect
       = n + (if createChannel_rejected st s then 1 else 0)
           + (if channel (exec gen st s) = None then 0 else 1)"
proof (cases st)
  case (Init w)
  have "init w s = (fst (init w s), snd (init w s))" by simp
  from init_connect_count [OF assms(1) this] Init show ?thesis by simp
next
  case (Enqueue w input)
  obtain r0 s0 where ec: "ensure_channel w s = (r0, s0)"
    by (cases "ensure_channel w s")
  from ensure_channel_connect_count [OF assms(1) ec] have
    s0: "count_list (trace s0) Connect =
       n + (if init_createChannel_rejected w s then 1 else 0)
         + (if channel s0 = None then 0 else 1)"
    by simp
  show ?thesis
  proof (cases r0)
    case (Inl e)
    with ec have "enqueue gen w input s = (Inl e, s0)"
      by (simp add: enqueue_ensure_fails)
    with s0 Enqueue show ?thesis by simp
  next
    case (Inr u)
    with ec have "ensure_channel w s = (Inr u, s0)" by simp
    from enqueue_with_channel [OF this, of gen input] s0 Enqueue show ?thesis
      by auto
  qed
next
  case (StartConsumer w)
  obtain r0 s0 where ec: "ensure_channel w s = (r0, s0)"
    by (cases "ensure_channel w s")
  from ensure_channel_connect_count [OF assms(1) ec] have
    s0: "count_list (trace s0) Connect =
       n + (if init_createChannel_rejected w s then 1 else 0)
         + (if channel s0 = None then 0 else 1)"
    by simp
  from startConsumer_after_ensure [OF ec] s0 StartConsumer show ?thesis
    by (cases r0) auto
next
  case (Deliver w)
  from deliver_setup [of gen w s] assms Deliver show ?thesis
    by (auto simp: count_list_0_iff)
next
  case (Call c)
  with assms(2) show ?thesis by simp
next
  case (Resume i ok)
  with assms(2) show ?thesis by simp
qed

lemma run_setup_counts:
  assumes "count_list (trace s) CreateChannel = (if channel s = None then 0 else 1)"
    and "list_all whole_call steps"
  shows "count_list (trace (run gen steps s)) CreateChannel
       = (if channel (run gen steps s) = None then 0 else 1)"
  using assms
proof (induction steps arbitrary: s)
  case Nil
  then show ?case by simp
next
  case (Cons st steps)
  from Cons.prems(2) have w: "whole_call st" "list_all whole_call steps" by simp_all
  from exec_setup_counts [OF Cons.prems(1) w(1), of gen] Cons.IH [of "exec gen st s"] w(2)
  show ?case by simp
qed

lemma run_connect_count:
  assumes "count_list (trace s) Connect = n + (if channel s = None then 0 else 1)"
    and "list_all whole_call steps"
  shows "count_list (trace (run gen steps s)) Connect
       = n + createChannel_rejections gen steps s
           + (if channel (run gen steps s) = None then 0 else 1)"
  using assms
proof (induction steps arbitrary: s n)
  case Nil
  then show ?case by simp
next
  case (Cons st steps)
  from Cons.prems(2) have w: "whole_call st" "list_all whole_call steps" by simp_all
  from exec_connect_count [OF Cons.prems(1) w(1), of gen]
  have "count_list (trace (exec gen st s)) Connect
       = (n + (if createChannel_rejected st s then 1 else 0))
           + (if channel (exec gen st s) = None then 0 else 1)"
    by simp
  from Cons.IH [OF this w(2)] show ?case by simp
qed

subsection \<open>Calls cut at their awaits\<close>

lemma uninterrupted_init:
  "uninterrupted gen w CallInit s =
     (Finished (case fst (init w s) of Inl e \<Rightarrow> Inl e | Inr u \<Rightarrow> Inr None), snd (init w s))"
  by (cases "channel s")
     (simp_all add: uninterrupted_def start_def init_start_def init_settled_def resume_def
        outcome_for_def init_def Let_def eval_nat_numeral)

lemma uninterrupted_startConsumer:
  "uninterrupted gen w CallStartConsumer s =
     (Finished (case fst (startConsumer w s) of Inl e \<Rightarrow> Inl e | Inr u \<Rightarrow> Inr None),
      snd (startConsumer w s))"
  by (cases "channel s")
     (simp_all add: uninterrupted_def start_def startConsumer_start_def startConsumer_guard_def
        startConsumer_settled_def init_start_def init_settled_def resume_def outcome_for_def
        startConsumer_def ensure_channel_def init_def Let_def eval_nat_numeral emit_def)

lemma uninterrupted_enqueue:
  "uninterrupted gen w (CallEnqueue input) s =
     (Finished (case fst (enqueue gen w input s) of Inl e \<Rightarrow> Inl e | Inr j \<Rightarrow> Inr (Some j)),
      snd (enqueue gen w input s))"
  by (cases "channel s")
     (simp_all add: uninterrupted_def start_def enqueue_start_def enqueue_submit_def
        startConsumer_start_def startConsumer_guard_def
        startConsumer_settled_def init_start_def init_settled_def resume_def outcome_for_def
        enqueue_def startConsumer_def ensure_channel_def init_def Let_def eval_nat_numeral
        emit_def generate_def statuses_set_def sendToQueue_def)

lemma start_consume:
  assumes "start gen c s = (t, s')"
  shows "count_list (trace s') (Consume queueName) = count_list (trace s) (Consume queueName) \<and>
     inflight s' = inflight s \<and>
     (if awaits_consume t then \<not> isConsuming s \<and> isConsuming s'
      else isConsuming s' = isConsuming s)"
  using assms
  by (cases c)
     (auto simp: start_def enqueue_start_def enqueue_submit_def startConsumer_start_def
        startConsumer_guard_def startConsumer_settled_def init_start_def init_settled_def
        generate_def Let_def
        split: option.splits if_splits init_caller.splits startConsumer_caller.splits)

lemma resume_consume:
  assumes "resume gen ok t0 s = (t, s')"
  shows "inflight s' = inflight s \<and>
     (if awaits_consume t0
      then \<not> awaits_consume t \<and> isConsuming s' = isConsuming s \<and>
           count_list (trace s') (Consume queueName)
             \<le> count_list (trace s) (Consume queueName) + 1
      else count_list (trace s') (Consume queueName) = count_list (trace s) (Consume queueName) \<and>
           (if awaits_consume t then \<not> isConsuming s \<and> isConsuming s'
            else isConsuming s' = isConsuming s))"
  using assms
  by (cases t0)
     (auto simp: resume_def enqueue_submit_def startConsumer_start_def
        startConsumer_guard_def startConsumer_settled_def init_start_def init_settled_def
        generate_def Let_def
        split: option.splits if_splits init_caller.splits startConsumer_caller.splits sum.splits)

lemma length_filter_update:
  assumes "i < length xs"
  shows "length (filter P (xs[i := y])) + (if P (xs ! i) then 1 else 0)
     = length (filter P xs) + (if P y then 1 else 0)"
  using assms
proof (induction xs arbitrary: i)
  case Nil
  then show ?case by simp
next
  case (Cons x xs)
  then show ?case by (cases i) auto
qed

lemma whole_call_consume:
  assumes "whole_call st"
  shows "inflight (exec gen st s) = inflight s \<and>
     (if isConsuming s
      then isConsuming (exec gen st s) \<and>
           count_list (trace (exec gen st s)) (Consume queueName)
             = count_list (trace s) (Consume queueName)
      else count_list (trace (exec gen st s)) (Consume queueName)
             \<le> count_list (trace s) (Consume queueName)
                 + (if isConsuming (exec gen st s) then 1 else 0))"
proof (cases st)
  case (Init w)
  from init_frame [of w s] init_trace [of w s] Init show ?thesis
    by (auto simp: count_list_0_iff)
next
  case (Enqueue w input)
  obtain r0 s0 where ec: "ensure_channel w s = (r0, s0)"
    by (cases "ensure_channel w s")
  from ensure_channel_frame [of w s] ensure_channel_trace [of w s] ec obtain evs where
    s0: "isConsuming s0 = isConsuming s" "inflight s0 = inflight s"
      "trace s0 = trace s @ evs" "Consume queueName \<notin> set evs"
    by auto
  show ?thesis
  proof (cases r0)
    case (Inl e)
    with ec have "enqueue gen w input s = (Inl e, s0)"
      by (simp add: enqueue_ensure_fails)
    with s0 Enqueue show ?thesis by (simp add: count_list_0_iff)
  next
    case (Inr u)
    with ec have "ensure_channel w s = (Inr u, s0)" by simp
    from enqueue_with_channel [OF this, of gen input] s0 Enqueue show ?thesis
      by (auto simp: count_list_0_iff)
  qed
next
  case (StartConsumer w)
  obtain r0 s0 where ec: "ensure_channel w s = (r0, s0)"
    by (cases "ensure_channel w s")
  from ensure_channel_frame [of w s] ensure_channel_trace [of w s] ec obtain evs where
    s0: "isConsuming s0 = isConsuming s" "inflight s0 = inflight s"
      "trace s0 = trace s @ evs" "Consume queueName \<notin> set evs"
    by auto
  from startConsumer_after_ensure [OF ec] s0 StartConsumer show ?thesis
    by (cases r0) (auto simp: count_list_0_iff)
next
  case (Deliver w)
  from deliver_setup [of gen w s] Deliver show ?thesis
    by (auto simp: count_list_0_iff)
next
  case (Call c)
  with assms show ?thesis by simp
next
  case (Resume i ok)
  with assms show ?thesis by simp
qed

lemma exec_consume_bound:
  assumes "count_list (trace s) (Consume queueName)
       + length (filter awaits_consume (inflight s)) \<le> (if isConsuming s then 1 else 0)"
  shows "count_list (trace (exec gen st s)) (Consume queueName)
       + length (filter awaits_consume (inflight (exec gen st s)))
     \<le> (if isConsuming (exec gen st s) then 1 else 0)"
proof (cases "whole_call st")
  case True
  from whole_call_consume [OF True, of gen s] assms show ?thesis
    by (cases "isConsuming s") (simp_all split: if_splits)
next
  case False
  then show ?thesis
  proof (cases st)
    case (Call c)
    obtain t s' where st: "start gen c s = (t, s')"
      by (cases "start gen c s")
    from start_consume [OF st] assms st Call show ?thesis
      by (cases "awaits_consume t") (simp_all split: if_splits)
  next
    case (Resume i ok)
    show ?thesis
    proof (cases "i < length (inflight s)")
      case out: False
      with assms Resume show ?thesis by simp
    next
      case True
      obtain t s' where r: "resume gen ok (inflight s ! i) s = (t, s')"
        by (cases "resume gen ok (inflight s ! i) s")
      from resume_consume [OF r] have i: "inflight s' = inflight s" by simp
      from length_filter_update [OF True, of awaits_consume t]
      have l: "length (filter awaits_consume ((inflight s)[i := t]))
           + (if awaits_consume (inflight s ! i) then 1 else 0)
         = length (filter awaits_consume (inflight s)) + (if awaits_consume t then 1 else 0)" .
      from True r Resume i have e: "exec gen st s = s'\<lparr>inflight := (inflight s)[i := t]\<rparr>"
        by simp
      from resume_consume [OF r] assms l show ?thesis
        unfolding e
        by (cases "awaits_consume (inflight s ! i)"; cases "awaits_consume t")
           (simp_all split: if_splits)
    qed
  qed simp_all
qed

lemma run_consume_bound:
  assumes "count_list (trace s) (Consume queueName)
       + length (filter awaits_consume (inflight s)) \<le> (if isConsuming s then 1 else 0)"
  shows "count_list (trace (run gen steps s)) (Consume queueName)
       + length (filter awaits_consume (inflight (run gen steps s)))
     \<le> (if isConsuming (run gen steps s) then 1 else 0)"
  using assms
proof (induction steps arbitrary: s)
  case Nil
  then show ?case by simp
next
  case (Cons st steps)
  from exec_consume_bound [OF Cons.prems, of gen st] Cons.IH [of "exec gen st s"]
  show ?case by simp
qed

subsection \<open>Status writes along an execution\<close>

lemma lifecycle_append [simp]: "lifecycle j (xs @ ys) = lifecycle j xs @ lifecycle j ys"
  by (induction j xs rule: lifecycle.induct) simp_all

lemma lifecycle_Insert [simp]: "lifecycle j (map Insert rows) = []"
  by (induction rows) simp_all

lemma lifecycle_setup:
  "set evs \<subseteq> {Connect, CreateChannel, AssertQueue q d, Consume q'} \<Longrightarrow> lifecycle j evs = []"
  by (induction evs) auto

lemma history_lifecycle:
  "history j tr = map the (filter (\<lambda>x. x \<noteq> None) (lifecycle j tr))"
proof (induction tr)
  case Nil
  then show ?case by simp
next
  case (Cons e tr)
  then show ?case by (cases e) simp_all
qed

lemma lifecycle_no_rejection:
  "\<forall>m. AckRejected m \<in> set tr \<longrightarrow> status_key m \<noteq> j \<Longrightarrow> None \<notin> set (lifecycle j tr)"
proof (induction tr)
  case Nil
  then show ?case by simp
next
  case (Cons e tr)
  then show ?case by (cases e) auto
qed

lemma status_key_Json [simp]:
  "status_key \<lparr>message_content = Json p, messageId = i\<rparr> = jobId p"
  by (simp add: status_key_def failure_key_def)

lemma status_key_parsed:
  "JSON_parse (message_content m) = Some p \<Longrightarrow> status_key m = jobId p"
  by (simp add: status_key_def failure_key_def)

lemma process_payload_trace:
  assumes "process_payload gen w message payload s = (r, s')"
  shows "\<exists>rows tl. trace s' = trace s
       @ [SetStatus (jobId payload) (Processing processing_message),
          GenerateCards (generate_input payload)]
       @ map Insert rows @ tl \<and>
     ((r = Inr () \<and> (\<exists>cs. tl = [SetStatus (jobId payload) (Completed completed_message cs),
                                 Ack message])) \<or>
      (\<exists>e. r = Inl e \<and>
         (tl = [] \<or>
          (\<exists>cs. tl = [SetStatus (jobId payload) (Completed completed_message cs),
                       AckRejected message]))))"
proof (cases "generateCards w (generate_input payload)")
  case (Inl e)
  with assms have "trace s' = trace s
       @ [SetStatus (jobId payload) (Processing processing_message),
          GenerateCards (generate_input payload)] @ map Insert [] @ [] \<and> r = Inl e"
    by (auto simp: process_payload_def Let_def)
  then show ?thesis by blast
next
  case (Inr cards)
  let ?s2 = "emit (GenerateCards (generate_input payload))
               (statuses_set (jobId payload) (Processing processing_message) s)"
  let ?done = "SetStatus (jobId payload) (Completed completed_message (map card_of cards))"
  obtain r3 s3 where i: "insert_cards gen w payload cards ?s2 = (r3, s3)"
    by (cases "insert_cards gen w payload cards ?s2")
  from insert_cards_frame [OF i] obtain n where
    t: "trace s3 = trace s @ [SetStatus (jobId payload) (Processing processing_message),
          GenerateCards (generate_input payload)]
          @ map Insert (take n (rows_for gen payload (generated s) cards))"
    by auto
  show ?thesis
  proof (cases r3)
    case (Inl e)
    with assms Inr i t have "trace s' = trace s
       @ [SetStatus (jobId payload) (Processing processing_message),
          GenerateCards (generate_input payload)]
       @ map Insert (take n (rows_for gen payload (generated s) cards)) @ [] \<and> r = Inl e"
      by (auto simp: process_payload_def Let_def)
    then show ?thesis by blast
  next
    case ok: (Inr u)
    show ?thesis
    proof (cases "ack_ok w")
      case True
      with assms Inr i t ok have "trace s' = trace s
         @ [SetStatus (jobId payload) (Processing processing_message),
            GenerateCards (generate_input payload)]
         @ map Insert (take n (rows_for gen payload (generated s) cards))
         @ [?done, Ack message] \<and> r = Inr ()"
        by (auto simp: process_payload_def Let_def ack_def)
      then show ?thesis by blast
    next
      case False
      with assms Inr i t ok have "trace s' = trace s
         @ [SetStatus (jobId payload) (Processing processing_message),
            GenerateCards (generate_input payload)]
         @ map Insert (take n (rows_for gen payload (generated s) cards))
         @ [?done, AckRejected message] \<and> r = Inl AckError"
        by (auto simp: process_payload_def Let_def ack_def)
      then show ?thesis by blast
    qed
  qed
qed

lemma handleMessage_parsed_lifecycle:
  assumes "JSON_parse (message_content m) = Some payload"
    and "handleMessage gen w m s = (r, s')"
  shows "pending s' = pending s \<and> generated s \<le> generated s' \<and>
     (\<exists>h. h \<in> {[], [Some processing, Some completed], [Some processing, Some failed],
               [Some processing, Some completed, None, Some failed]} \<and>
        (\<forall>j. lifecycle j (trace s')
           = lifecycle j (trace s) @ (if j = jobId payload then h else [])))"
proof (cases "channel s")
  case None
  with assms(2) have "s' = s" by (simp add: handleMessage_def)
  then have "pending s' = pending s \<and> generated s \<le> generated s' \<and>
     [] \<in> {[], [Some processing, Some completed], [Some processing, Some failed],
               [Some processing, Some completed, None, Some failed]} \<and>
        (\<forall>j. lifecycle j (trace s')
           = lifecycle j (trace s) @ (if j = jobId payload then [] else []))"
    by simp
  then show ?thesis by blast
next
  case (Some ch)
  have k: "status_key m = jobId payload"
    using assms(1) by (rule status_key_parsed)
  obtain r1 s1 where p: "process_payload gen w m payload s = (r1, s1)"
    by (cases "process_payload gen w m payload s")
  from process_payload_frame [OF p] have f: "pending s1 = pending s" "generated s \<le> generated s1"
    by simp_all
  from process_payload_trace [OF p] obtain rows tl where
    t: "trace s1 = trace s
       @ [SetStatus (jobId payload) (Processing processing_message),
          GenerateCards (generate_input payload)]
       @ map Insert rows @ tl"
    and c: "(r1 = Inr () \<and> (\<exists>cs. tl = [SetStatus (jobId payload) (Completed completed_message cs),
                                 Ack m])) \<or>
      (\<exists>e. r1 = Inl e \<and>
         (tl = [] \<or>
          (\<exists>cs. tl = [SetStatus (jobId payload) (Completed completed_message cs),
                       AckRejected m])))"
    by blast
  from c show ?thesis
  proof
    assume "r1 = Inr () \<and> (\<exists>cs. tl = [SetStatus (jobId payload) (Completed completed_message cs),
                                 Ack m])"
    then obtain cs where r1: "r1 = Inr ()"
      and tl: "tl = [SetStatus (jobId payload) (Completed completed_message cs), Ack m]"
      by blast
    from assms Some p r1 have s': "s' = s1"
      by (simp add: handleMessage_def)
    with f have a: "pending s' = pending s \<and> generated s \<le> generated s'"
      by simp
    from s' t tl have "\<forall>j. lifecycle j (trace s')
        = lifecycle j (trace s)
            @ (if j = jobId payload then [Some processing, Some completed] else [])"
      by simp
    with a show ?thesis by blast
  next
    assume "\<exists>e. r1 = Inl e \<and>
         (tl = [] \<or>
          (\<exists>cs. tl = [SetStatus (jobId payload) (Completed completed_message cs),
                       AckRejected m]))"
    then obtain e where r1: "r1 = Inl e"
      and tl: "tl = [] \<or>
          (\<exists>cs. tl = [SetStatus (jobId payload) (Completed completed_message cs),
                       AckRejected m])"
      by blast
    from assms Some p r1 have s': "s' = snd (on_error w (Some payload) m s1)"
      by (simp add: handleMessage_def)
    with f have a: "pending s' = pending s \<and> generated s \<le> generated s'"
      by (simp add: on_error_def)
    from tl show ?thesis
    proof
      assume "tl = []"
      with s' t have "\<forall>j. lifecycle j (trace s')
        = lifecycle j (trace s)
            @ (if j = jobId payload then [Some processing, Some failed] else [])"
        by (simp add: on_error_def failure_key_def)
      with a show ?thesis by blast
    next
      assume "\<exists>cs. tl = [SetStatus (jobId payload) (Completed completed_message cs),
                       AckRejected m]"
      then obtain cs where
        "tl = [SetStatus (jobId payload) (Completed completed_message cs), AckRejected m]"
        by blast
      with s' t k have "\<forall>j. lifecycle j (trace s')
        = lifecycle j (trace s)
            @ (if j = jobId payload
               then [Some processing, Some completed, None, Some failed] else [])"
        by (simp add: on_error_def failure_key_def)
      with a show ?thesis by blast
    qed
  qed
qed

lemma quiet_refl: "quiet s s"
  by (simp add: quiet_def)

lemma quiet_inflight: "quiet s s' \<Longrightarrow> quiet s (s'\<lparr>inflight := ts\<rparr>)"
  by (simp add: quiet_def)

lemma submits_inflight: "submits gen s s' \<Longrightarrow> submits gen s (s'\<lparr>inflight := ts\<rparr>)"
  by (simp add: submits_def)

lemma init_quiet: "quiet s (snd (init w s))"
proof -
  from init_trace [of w s] obtain evs where
    e: "trace (snd (init w s)) = trace s @ evs"
      "set evs \<subseteq> {Connect, CreateChannel, AssertQueue queueName True}"
    by blast
  from e(2) have "set evs \<subseteq> {Connect, CreateChannel, AssertQueue queueName True, Consume queueName}"
    by blast
  from lifecycle_setup [OF this] e(1) init_frame [of w s] show ?thesis
    by (simp add: quiet_def)
qed

lemma ensure_channel_quiet: "quiet s (snd (ensure_channel w s))"
  using init_quiet [of s w] by (simp add: ensure_channel_def quiet_refl split: option.split)

lemma startConsumer_quiet: "quiet s (snd (startConsumer w s))"
proof -
  obtain r0 s0 where ec: "ensure_channel w s = (r0, s0)"
    by (cases "ensure_channel w s")
  from ensure_channel_quiet [of s w] ec have q: "quiet s s0" by simp
  from startConsumer_after_ensure [OF ec] q show ?thesis
    by (cases r0) (auto simp: quiet_def)
qed

lemma enqueue_quiet_or_submits:
  "quiet s (snd (enqueue gen w input s)) \<or> submits gen s (snd (enqueue gen w input s))"
proof -
  obtain r0 s0 where ec: "ensure_channel w s = (r0, s0)"
    by (cases "ensure_channel w s")
  from ensure_channel_quiet [of s w] ec have q: "quiet s s0" by simp
  show ?thesis
  proof (cases r0)
    case (Inl e)
    with ec have "enqueue gen w input s = (Inl e, s0)"
      by (simp add: enqueue_ensure_fails)
    with q show ?thesis by simp
  next
    case (Inr u)
    with ec have "ensure_channel w s = (Inr u, s0)" by simp
    from enqueue_with_channel [OF this, of gen input] q
    have "submits gen s (snd (enqueue gen w input s))"
      by (auto simp: submits_def quiet_def JSON_stringify_def)
    then show ?thesis ..
  qed
qed

lemma startConsumer_start_quiet:
  "startConsumer_start c s = (t, s') \<Longrightarrow> quiet s s'"
  by (auto simp: startConsumer_start_def startConsumer_guard_def init_start_def quiet_def
      split: option.splits if_splits)

lemma startConsumer_guard_quiet:
  "startConsumer_guard c s = (t, s') \<Longrightarrow> quiet s s'"
  by (auto simp: startConsumer_guard_def quiet_def split: if_splits)

lemma enqueue_submit_cases:
  assumes "enqueue_submit gen input s = (t, s')"
  shows "quiet s s' \<or> submits gen s s'"
proof (cases "channel s")
  case None
  with assms show ?thesis by (simp add: enqueue_submit_def quiet_refl)
next
  case (Some ch)
  let ?payload = "\<lparr>deckId = deckId input, deckName = deckName input,
                  deckSubject = deckSubject input, userId = userId input,
                  content = content input, goal = goal input, tone = tone input,
                  jobId = gen (generated s)\<rparr>"
  let ?s3 = "sendToQueue queueName (JSON_stringify ?payload) True
               (statuses_set (gen (generated s)) (Queued queued_message)
                  (s\<lparr>generated := Suc (generated s)\<rparr>))"
  have s3: "submits gen s ?s3"
    by (simp add: submits_def JSON_stringify_def)
  show ?thesis
  proof (cases "isConsuming s")
    case True
    with assms Some have "s' = ?s3"
      by (simp add: enqueue_submit_def generate_def Let_def)
    with s3 show ?thesis by simp
  next
    case False
    with assms Some have "startConsumer_start (ScEnqueue (gen (generated s))) ?s3 = (t, s')"
      by (simp add: enqueue_submit_def generate_def Let_def)
    from startConsumer_start_quiet [OF this] s3 have "submits gen s s'"
      by (simp add: submits_def quiet_def)
    then show ?thesis ..
  qed
qed

lemma start_cases:
  assumes "start gen c s = (t, s')"
  shows "quiet s s' \<or> submits gen s s'"
proof (cases c)
  case CallInit
  with assms have "s' = s"
    by (auto simp: start_def init_start_def split: option.splits)
  then show ?thesis by (simp add: quiet_refl)
next
  case (CallEnqueue input)
  show ?thesis
  proof (cases "channel s")
    case None
    with assms CallEnqueue have "s' = s"
      by (auto simp: start_def enqueue_start_def init_start_def)
    then show ?thesis by (simp add: quiet_refl)
  next
    case (Some ch)
    with assms CallEnqueue have "enqueue_submit gen input s = (t, s')"
      by (simp add: start_def enqueue_start_def)
    then show ?thesis by (rule enqueue_submit_cases)
  qed
next
  case CallStartConsumer
  with assms have "startConsumer_start ScTop s = (t, s')"
    by (simp add: start_def)
  from startConsumer_start_quiet [OF this] show ?thesis ..
qed

lemma resume_cases:
  assumes "resume gen ok t0 s = (t, s')"
  shows "quiet s s' \<or> submits gen s s'"
proof (cases t0)
  case (AwaitConnect c)
  with assms show ?thesis
    by (auto simp: resume_def quiet_def split: if_splits)
next
  case (AwaitCreateChannel c)
  with assms show ?thesis
    by (auto simp: resume_def quiet_def split: if_splits)
next
  case (AwaitAssertQueue c)
  with assms show ?thesis
    by (auto simp: resume_def quiet_def split: if_splits)
next
  case (AwaitInit c r)
  show ?thesis
  proof (cases r)
    case (Inl e)
    with assms AwaitInit have "s' = s"
      by (auto simp: resume_def split: init_caller.splits)
    then show ?thesis by (simp add: quiet_refl)
  next
    case (Inr u)
    show ?thesis
    proof (cases c)
      case InitTop
      with assms AwaitInit Inr have "s' = s" by (simp add: resume_def)
      then show ?thesis by (simp add: quiet_refl)
    next
      case (InitEnqueue input)
      with assms AwaitInit Inr have "enqueue_submit gen input s = (t, s')"
        by (simp add: resume_def)
      then show ?thesis by (rule enqueue_submit_cases)
    next
      case (InitStartConsumer sc)
      with assms AwaitInit Inr have "startConsumer_guard sc s = (t, s')"
        by (simp add: resume_def)
      from startConsumer_guard_quiet [OF this] show ?thesis ..
    qed
  qed
next
  case (AwaitConsume c)
  with assms show ?thesis
    by (auto simp: resume_def quiet_def split: if_splits)
next
  case (AwaitStartConsumer j r)
  with assms have "s' = s"
    by (auto simp: resume_def split: sum.splits)
  then show ?thesis by (simp add: quiet_refl)
next
  case (Finished r)
  with assms have "s' = s" by (simp add: resume_def)
  then show ?thesis by (simp add: quiet_refl)
qed

lemma jobs_inv_quiet:
  assumes "jobs_inv gen s" and "quiet s s'"
  shows "jobs_inv gen s'"
  using assms by (simp add: jobs_inv_def quiet_def)

lemma jobs_inv_submits:
  assumes inv: "jobs_inv gen s" and inj: "inj gen" and sub: "submits gen s s'"
  shows "jobs_inv gen s'"
proof -
  let ?j = "gen (generated s)"
  from sub obtain p where
    g: "generated s' = Suc (generated s)"
    and p: "jobId p = ?j" "pending s' = pending s @ [\<lparr>message_content = Json p, messageId = None\<rparr>]"
    and h: "\<And>j. lifecycle j (trace s') = lifecycle j (trace s) @ (if j = ?j then [Some queued] else [])"
    by (auto simp: submits_def)
  from inj have "\<forall>n<generated s. ?j \<noteq> gen n"
    by (auto dest: injD)
  with inv have fresh: "lifecycle ?j (trace s) = []"
    by (simp add: jobs_inv_def)
  have old: "\<exists>q. message_content m = Json q \<and> lifecycle (jobId q) (trace s) = [Some queued] \<and>
        jobId q \<noteq> ?j \<and> status_key m = jobId q"
    if "m \<in> set (pending s)" for m
  proof -
    from inv that obtain q where
      q: "message_content m = Json q" "lifecycle (jobId q) (trace s) = [Some queued]"
      by (auto simp: jobs_inv_def)
    with fresh have "jobId q \<noteq> ?j" by auto
    moreover from q(1) have "status_key m = jobId q"
      by (simp add: status_key_parsed)
    ultimately show ?thesis using q by blast
  qed
  have a: "\<forall>m\<in>set (pending s'). \<exists>q. message_content m = Json q \<and>
        lifecycle (jobId q) (trace s') = [Some queued]"
  proof
    fix m
    assume "m \<in> set (pending s')"
    with p(2) have "m \<in> set (pending s) \<or> m = \<lparr>message_content = Json p, messageId = None\<rparr>"
      by auto
    then show "\<exists>q. message_content m = Json q \<and> lifecycle (jobId q) (trace s') = [Some queued]"
    proof
      assume "m \<in> set (pending s)"
      from old [OF this] h show ?thesis by auto
    next
      assume "m = \<lparr>message_content = Json p, messageId = None\<rparr>"
      with h [of ?j] fresh p(1) show ?thesis by simp
    qed
  qed
  have b: "distinct (map status_key (pending s'))"
  proof -
    from inv have "distinct (map status_key (pending s))"
      by (simp add: jobs_inv_def)
    moreover have "?j \<notin> status_key ` set (pending s)"
      using old by force
    ultimately show ?thesis using p by simp
  qed
  have c: "\<forall>j. lifecycle j (trace s') \<in>
        {[], [Some queued], [Some queued, Some processing, Some completed],
         [Some queued, Some processing, Some failed],
         [Some queued, Some processing, Some completed, None, Some failed]}"
  proof
    fix j
    from inv have "lifecycle j (trace s) \<in>
        {[], [Some queued], [Some queued, Some processing, Some completed],
         [Some queued, Some processing, Some failed],
         [Some queued, Some processing, Some completed, None, Some failed]}"
      by (simp add: jobs_inv_def)
    with h [of j] fresh show "lifecycle j (trace s') \<in>
        {[], [Some queued], [Some queued, Some processing, Some completed],
         [Some queued, Some processing, Some failed],
         [Some queued, Some processing, Some completed, None, Some failed]}"
      by (cases "j = ?j") simp_all
  qed
  have d: "\<forall>j. (\<forall>n<generated s'. j \<noteq> gen n) \<longrightarrow> lifecycle j (trace s') = []"
  proof (intro allI impI)
    fix j
    assume n: "\<forall>n<generated s'. j \<noteq> gen n"
    with g have "j \<noteq> ?j" "\<forall>n<generated s. j \<noteq> gen n" by auto
    with inv h [of j] show "lifecycle j (trace s') = []"
      by (simp add: jobs_inv_def)
  qed
  from a b c d show ?thesis
    unfolding jobs_inv_def by blast
qed

lemma jobs_inv_deliver:
  assumes inv: "jobs_inv gen s"
  shows "jobs_inv gen (deliver gen w s)"
proof (cases "Consume queueName \<in> set (trace s)")
  case False
  with inv show ?thesis by (simp add: deliver_def)
next
  case True
  show ?thesis
  proof (cases "pending s")
    case Nil
    with True inv show ?thesis by (simp add: deliver_def)
  next
    case (Cons m ms)
    let ?s1 = "s\<lparr>pending := ms\<rparr>"
    let ?s' = "deliver gen w s"
    from True Cons have s': "?s' = snd (handleMessage gen w m ?s1)"
      by (simp add: deliver_def consumer_callback_def)
    from inv Cons obtain payload where
      pl: "message_content m = Json payload" "lifecycle (jobId payload) (trace s) = [Some queued]"
      by (auto simp: jobs_inv_def)
    then have parse: "JSON_parse (message_content m) = Some payload" by simp
    have "handleMessage gen w m ?s1 = (fst (handleMessage gen w m ?s1), ?s')"
      using s' by simp
    from handleMessage_parsed_lifecycle [OF parse this] obtain h where
      p: "pending ?s' = ms"
      and g: "generated s \<le> generated ?s'"
      and h: "h \<in> {[], [Some processing, Some completed], [Some processing, Some failed],
               [Some processing, Some completed, None, Some failed]}"
        "\<And>j. lifecycle j (trace ?s') = lifecycle j (trace s) @ (if j = jobId payload then h else [])"
      by auto
    from inv Cons status_key_parsed [OF parse] have
      dist: "jobId payload \<notin> status_key ` set ms" "distinct (map status_key ms)"
      by (simp_all add: jobs_inv_def)
    have a: "\<forall>m'\<in>set (pending ?s'). \<exists>q. message_content m' = Json q \<and>
        lifecycle (jobId q) (trace ?s') = [Some queued]"
    proof
      fix m'
      assume "m' \<in> set (pending ?s')"
      with p have m': "m' \<in> set ms" by simp
      with inv Cons obtain q where
        q: "message_content m' = Json q" "lifecycle (jobId q) (trace s) = [Some queued]"
        by (auto simp: jobs_inv_def)
      from q(1) have "status_key m' = jobId q" by (simp add: status_key_parsed)
      with m' dist(1) have "jobId q \<noteq> jobId payload"
        by force
      with q h(2) show "\<exists>q. message_content m' = Json q \<and>
        lifecycle (jobId q) (trace ?s') = [Some queued]"
        by auto
    qed
    have b: "distinct (map status_key (pending ?s'))"
      using p dist(2) by simp
    have c: "\<forall>j. lifecycle j (trace ?s') \<in>
        {[], [Some queued], [Some queued, Some processing, Some completed],
         [Some queued, Some processing, Some failed],
         [Some queued, Some processing, Some completed, None, Some failed]}"
    proof
      fix j
      from inv have "lifecycle j (trace s) \<in>
        {[], [Some queued], [Some queued, Some processing, Some completed],
         [Some queued, Some processing, Some failed],
         [Some queued, Some processing, Some completed, None, Some failed]}"
        by (simp add: jobs_inv_def)
      with h pl(2) show "lifecycle j (trace ?s') \<in>
        {[], [Some queued], [Some queued, Some processing, Some completed],
         [Some queued, Some processing, Some failed],
         [Some queued, Some processing, Some completed, None, Some failed]}"
        by (cases "j = jobId payload") auto
    qed
    have d: "\<forall>j. (\<forall>n<generated ?s'. j \<noteq> gen n) \<longrightarrow> lifecycle j (trace ?s') = []"
    proof (intro allI impI)
      fix j
      assume "\<forall>n<generated ?s'. j \<noteq> gen n"
      with g have "\<forall>n<generated s. j \<noteq> gen n" by auto
      with inv have e: "lifecycle j (trace s) = []"
        by (simp add: jobs_inv_def)
      with pl(2) have "j \<noteq> jobId payload" by auto
      with h(2) e show "lifecycle j (trace ?s') = []" by simp
    qed
    from a b c d show ?thesis
      unfolding jobs_inv_def by blast
  qed
qed

lemma jobs_inv_exec:
  assumes "inj gen" and "jobs_inv gen s"
  shows "jobs_inv gen (exec gen st s)"
proof (cases st)
  case (Init w)
  with jobs_inv_quiet [OF assms(2) init_quiet] show ?thesis by simp
next
  case (Enqueue w input)
  from enqueue_quiet_or_submits [of s gen w input] assms Enqueue show ?thesis
    by (auto intro: jobs_inv_quiet jobs_inv_submits)
next
  case (StartConsumer w)
  with jobs_inv_quiet [OF assms(2) startConsumer_quiet] show ?thesis by simp
next
  case (Deliver w)
  with jobs_inv_deliver [OF assms(2)] show ?thesis by simp
next
  case (Call c)
  obtain t s' where st: "start gen c s = (t, s')"
    by (cases "start gen c s")
  from start_cases [OF st] have
    "quiet s (s'\<lparr>inflight := inflight s' @ [t]\<rparr>) \<or> submits gen s (s'\<lparr>inflight := inflight s' @ [t]\<rparr>)"
    by (auto intro: quiet_inflight submits_inflight)
  with assms st Call show ?thesis
    by (auto intro: jobs_inv_quiet jobs_inv_submits)
next
  case (Resume i ok)
  show ?thesis
  proof (cases "i < length (inflight s)")
    case False
    with assms Resume show ?thesis by simp
  next
    case True
    obtain t s' where r: "resume gen ok (inflight s ! i) s = (t, s')"
      by (cases "resume gen ok (inflight s ! i) s")
    from resume_cases [OF r] have
      "quiet s (s'\<lparr>inflight := (inflight s')[i := t]\<rparr>) \<or>
       submits gen s (s'\<lparr>inflight := (inflight s')[i := t]\<rparr>)"
      by (auto intro: quiet_inflight submits_inflight)
    with assms r True Resume show ?thesis
      by (auto intro: jobs_inv_quiet jobs_inv_submits)
  qed
qed

lemma jobs_inv_run:
  assumes "inj gen" and "jobs_inv gen s"
  shows "jobs_inv gen (run gen steps s)"
  using assms(2)
proof (induction steps arbitrary: s)
  case Nil
  then show ?case by simp
next
  case (Cons st steps)
  from Cons.IH [OF jobs_inv_exec [OF assms(1) Cons.prems]] show ?case by simp
qed

lemma jobs_inv_new_queue: "jobs_inv gen new_queue"
  by (simp add: jobs_inv_def new_queue_def)

lemma lifecycle_prefix:
  assumes "prefix tr tr'"
  shows "prefix (lifecycle j tr) (lifecycle j tr')"
  using assms by (auto simp: prefix_def)

lemma prefix_of_lifecycle:
  assumes "prefix l L"
    and "L \<in> {[], [Some queued], [Some queued, Some processing, Some completed],
         [Some queued, Some processing, Some failed],
         [Some queued, Some processing, Some completed, None, Some failed]}"
    and "None \<notin> set l"
  shows "l \<in> {[], [Some queued], [Some queued, Some processing],
     [Some queued, Some processing, Some completed], [Some queued, Some processing, Some failed]}"
  using assms by (auto simp: prefix_Cons)

subsection \<open>Traces without a rejected ack\<close>

lemma no_rejected_ack:
  assumes "list_all (\<lambda>e. case e of AckRejected m \<Rightarrow> False | _ \<Rightarrow> True) tr"
  shows "\<forall>m. AckRejected m \<in> set tr \<longrightarrow> status_key m \<noteq> j"
  using assms by (auto simp: list_all_iff)

section \<open>Properties\<close>

text \<open>
  C1. The claim: a job whose pipeline succeeds with an empty card list is recorded as
  Failed, never as Completed with zero cards. The worker does not do so: with an empty
  list the insert loop runs zero times, the status Completed with no cards is written
  and the message is acknowledged. Evaluated on the scenario "submit one job, the
  pipeline returns an empty list": the job ends Completed with an empty card list,
  its history is queued, processing, completed, and the last broker command is an ack.
  The synchronous path of the controller, \<^verbatim>\<open>generateCardsWithFallback\<close>, raises on the
  same pipeline result.
\<close>

theorem empty_result_recorded_completed:
  "getStatus
     (run example_gen
        [Enqueue (example_world (Inr [])) example_input, Deliver (example_world (Inr []))]
        new_queue) (example_gen 0)
     = Some (Completed completed_message []) \<and>
   history (example_gen 0)
     (trace (run example_gen
        [Enqueue (example_world (Inr [])) example_input, Deliver (example_world (Inr []))]
        new_queue))
     = [queued, processing, completed] \<and>
   (case last (trace (run example_gen
        [Enqueue (example_world (Inr [])) example_input, Deliver (example_world (Inr []))]
        new_queue)) of Ack m \<Rightarrow> True | _ \<Rightarrow> False) \<and>
   generateCardsWithFallback (example_world (Inr [])) (generate_input example_payload)
     = Inl (Error ''Erro ao gerar flashcards.'')"
  by code_simp

text \<open>
  C2. When enqueue returns a job identifier, the status of that identifier is Queued; in
  the trace the write of Queued comes immediately before the publication of the job's
  message, preceded only by the set-up of the channel and followed only by the
  subscription of the consumer; and the status is still Queued after the handler has
  processed any messages that report under other keys, that is, as long as the worker has
  not handled the job itself.
\<close>

theorem enqueue_queued_before_publish:
  assumes "enqueue gen w input s = (Inr j, s')"
  shows "getStatus s' j = Some (Queued queued_message) \<and>
     (\<exists>pre post payload.
        trace s' = trace s @ pre
          @ [SetStatus j (Queued queued_message),
             SendToQueue queueName (JSON_stringify payload) True] @ post \<and>
        jobId payload = j \<and>
        set pre \<subseteq> {Connect, CreateChannel, AssertQueue queueName True} \<and>
        set post \<subseteq> {Consume queueName}) \<and>
     (\<forall>ds. (\<forall>d\<in>set ds. status_key (snd d) \<noteq> j) \<longrightarrow>
        getStatus (handle_all gen ds s') j = Some (Queued queued_message))"
proof -
  obtain r0 s0 where ec: "ensure_channel w s = (r0, s0)"
    by (cases "ensure_channel w s")
  show ?thesis
  proof (cases r0)
    case (Inl e)
    with ec assms enqueue_ensure_fails [of w s e s0 gen input] show ?thesis by simp
  next
    case (Inr u)
    let ?payload = "\<lparr>deckId = deckId input, deckName = deckName input,
                  deckSubject = deckSubject input, userId = userId input,
                  content = content input, goal = goal input, tone = tone input,
                  jobId = gen (generated s)\<rparr>"
    from ec Inr have ok: "ensure_channel w s = (Inr u, s0)" by simp
    define post where "post = (if isConsuming s \<or> \<not> consume_ok w then [] else [Consume queueName])"
    from enqueue_with_channel [OF ok, of gen input] assms have
      j: "j = gen (generated s)"
      and st: "statuses s' = (statuses s)(j \<mapsto> Queued queued_message)"
      and tr: "trace s' = trace s0 @
             [SetStatus j (Queued queued_message),
              SendToQueue queueName (JSON_stringify ?payload) True] @ post"
      by (auto simp: post_def)
    have post: "set post \<subseteq> {Consume queueName}"
      by (simp add: post_def)
    from ensure_channel_trace [of w s] ec obtain pre where
      pre: "trace s0 = trace s @ pre" "set pre \<subseteq> {Connect, CreateChannel, AssertQueue queueName True}"
      by auto
    from st have a: "getStatus s' j = Some (Queued queued_message)"
      by (simp add: getStatus_def)
    from tr pre post j have b: "\<exists>pre post payload.
        trace s' = trace s @ pre
          @ [SetStatus j (Queued queued_message),
             SendToQueue queueName (JSON_stringify payload) True] @ post \<and>
        jobId payload = j \<and>
        set pre \<subseteq> {Connect, CreateChannel, AssertQueue queueName True} \<and>
        set post \<subseteq> {Consume queueName}"
      by (intro exI [of _ pre] exI [of _ post] exI [of _ ?payload]) simp
    from st have c: "\<forall>ds. (\<forall>d\<in>set ds. status_key (snd d) \<noteq> j) \<longrightarrow>
        getStatus (handle_all gen ds s') j = Some (Queued queued_message)"
      by (simp add: getStatus_def handle_all_other_keys)
    from a b c show ?thesis by blast
  qed
qed

theorem enqueue_queued_before_publish_witness:
  "fst (enqueue example_gen (example_world (Inr [example_card])) example_input new_queue)
     = Inr ''id-'' \<and>
   getStatus (snd (enqueue example_gen (example_world (Inr [example_card])) example_input
      new_queue)) ''id-'' = Some (Queued queued_message) \<and>
   status_key example_message \<noteq> ''id-'' \<and>
   getStatus
     (handle_all example_gen [(example_world (Inr [example_card]), example_message)]
        (snd (enqueue example_gen (example_world (Inr [example_card])) example_input
           new_queue))) ''id-'' = Some (Queued queued_message)"
proof -
  let ?w = "example_world (Inr [example_card])"
  let ?e = "enqueue example_gen ?w example_input new_queue"
  have f: "fst ?e = Inr ''id-''"
    by code_simp
  then have e: "?e = (Inr ''id-'', snd ?e)"
    by (metis prod.collapse)
  have k: "status_key example_message \<noteq> ''id-''"
    by (simp add: status_key_def failure_key_def example_message_def example_payload_def)
  then have "\<forall>d\<in>set [(?w, example_message)]. status_key (snd d) \<noteq> ''id-''"
    by simp
  with enqueue_queued_before_publish [OF e] f k show ?thesis
    by blast
qed

text \<open>
  C3. The claim: when the pipeline returns a non-empty card list and every insert
  succeeds, the worker records Completed and acknowledges the message. The ack is the last
  statement of the try block: when the channel rejects it, the catch block runs, writes
  Failed over Completed and sends a nack. With two cards, both inserted, and a channel that
  rejects the ack, the job ends Failed and the message is not acknowledged.
\<close>

theorem ack_rejected_counterexample:
  "channel connected_queue = Some Channel \<and>
   JSON_parse (message_content example_message) = Some example_payload \<and>
   generateCards (closed_channel_world (Inr [example_card, second_card]))
     (generate_input example_payload) = Inr [example_card, second_card] \<and>
   list_all (insert_ok (closed_channel_world (Inr [example_card, second_card])))
     (rows_for example_gen example_payload (generated connected_queue)
        [example_card, second_card]) \<and>
   getStatus
     (snd (handleMessage example_gen (closed_channel_world (Inr [example_card, second_card]))
        example_message connected_queue)) ''job-1'' = Some (Failed failed_message) \<and>
   Ack example_message
     \<notin> set (trace (snd (handleMessage example_gen
         (closed_channel_world (Inr [example_card, second_card])) example_message
         connected_queue)))"
  by code_simp

text \<open>
  C3, as amended. When the pipeline returns a non-empty card list, every insert succeeds
  and the channel accepts the ack, the handler writes Processing, invokes the pipeline,
  inserts one row per card in the order of the pipeline's output (the row of a card carries
  its question and answer), writes Completed with the cards projected onto question and
  answer, in the same order, and acknowledges the message; these are all its effects, in
  this order.
\<close>

theorem handleMessage_completed:
  assumes "channel s = Some ch"
    and "JSON_parse (message_content message) = Some payload"
    and "generateCards w (generate_input payload) = Inr cards"
    and "cards \<noteq> []"
    and "list_all (insert_ok w) (rows_for gen payload (generated s) cards)"
    and "ack_ok w"
  shows "\<exists>s'. handleMessage gen w message s = (Inr (), s') \<and>
     trace s' = trace s
        @ [SetStatus (jobId payload) (Processing processing_message),
           GenerateCards (generate_input payload)]
        @ map Insert (rows_for gen payload (generated s) cards)
        @ [SetStatus (jobId payload)
             (Completed completed_message
                (map (\<lambda>c. \<lparr>question = question c, answer = answer c\<rparr>) cards)),
           Ack message] \<and>
     map (\<lambda>row. (map_of row ''question'', map_of row ''answer''))
         (rows_for gen payload (generated s) cards)
       = map (\<lambda>c. (Some (Str (question c)), Some (Str (answer c)))) cards \<and>
     getStatus s' (jobId payload)
       = Some (Completed completed_message
                 (map (\<lambda>c. \<lparr>question = question c, answer = answer c\<rparr>) cards))"
proof -
  have rows: "map (\<lambda>row. (map_of row ''question'', map_of row ''answer''))
         (rows_for gen payload n cards)
       = map (\<lambda>c. (Some (Str (question c)), Some (Str (answer c)))) cards" for n
    by (induction cards arbitrary: n) (simp_all add: flashcard_fields_def)
  have proj: "map card_of cards = map (\<lambda>c. \<lparr>question = question c, answer = answer c\<rparr>) cards"
    by (simp add: card_of_def)
  from process_payload_ok [OF assms(3) assms(5), of message] assms(1,2,6) rows proj
  show ?thesis
    by (simp add: handleMessage_def getStatus_def ack_def)
qed

theorem handleMessage_completed_witness:
  "channel connected_queue = Some Channel \<and>
   JSON_parse (message_content example_message) = Some example_payload \<and>
   generateCards (example_world (Inr [example_card, second_card]))
     (generate_input example_payload) = Inr [example_card, second_card] \<and>
   [example_card, second_card] \<noteq> [] \<and>
   list_all (insert_ok (example_world (Inr [example_card, second_card])))
     (rows_for example_gen example_payload (generated connected_queue)
        [example_card, second_card]) \<and>
   ack_ok (example_world (Inr [example_card, second_card])) \<and>
   (\<exists>s'. handleMessage example_gen (example_world (Inr [example_card, second_card]))
            example_message connected_queue = (Inr (), s') \<and>
      trace s' = trace connected_queue
        @ [SetStatus ''job-1'' (Processing processing_message),
           GenerateCards (generate_input example_payload),
           Insert (flashcard_fields ''id-'' example_card example_payload),
           Insert (flashcard_fields ''id-i'' second_card example_payload),
           SetStatus ''job-1''
             (Completed completed_message
                [\<lparr>question = ''What does photosynthesis convert?'',
                  answer = ''Light into chemical energy''\<rparr>,
                 \<lparr>question = ''Where does photosynthesis take place?'',
                  answer = ''In the chloroplasts''\<rparr>]),
           Ack example_message] \<and>
      getStatus s' ''job-1''
        = Some (Completed completed_message
                  [\<lparr>question = ''What does photosynthesis convert?'',
                    answer = ''Light into chemical energy''\<rparr>,
                   \<lparr>question = ''Where does photosynthesis take place?'',
                    answer = ''In the chloroplasts''\<rparr>]))"
proof -
  let ?w = "example_world (Inr [example_card, second_card])"
  have h1: "channel connected_queue = Some Channel"
    by (simp add: connected_queue_eq)
  have h2: "JSON_parse (message_content example_message) = Some example_payload"
    by (simp add: example_message_def)
  have h3: "generateCards ?w (generate_input example_payload) = Inr [example_card, second_card]"
    by (simp add: example_world_def)
  have h4: "[example_card, second_card] \<noteq> []" by simp
  have h5: "list_all (insert_ok ?w)
     (rows_for example_gen example_payload (generated connected_queue)
        [example_card, second_card])"
    by (simp add: example_world_def)
  have h6: "ack_ok ?w"
    by (simp add: example_world_def)
  have g: "generated connected_queue = 0" "example_gen 0 = ''id-''" "example_gen (Suc 0) = ''id-i''"
    "jobId example_payload = ''job-1''"
    by (simp_all add: connected_queue_eq example_gen_def example_payload_def)
  have c: "question example_card = ''What does photosynthesis convert?''"
    "answer example_card = ''Light into chemical energy''"
    "question second_card = ''Where does photosynthesis take place?''"
    "answer second_card = ''In the chloroplasts''"
    by (simp_all add: example_card_def second_card_def)
  from handleMessage_completed [OF h1 h2 h3 h4 h5 h6]
  have "\<exists>s'. handleMessage example_gen ?w example_message connected_queue = (Inr (), s') \<and>
      trace s' = trace connected_queue
        @ [SetStatus ''job-1'' (Processing processing_message),
           GenerateCards (generate_input example_payload),
           Insert (flashcard_fields ''id-'' example_card example_payload),
           Insert (flashcard_fields ''id-i'' second_card example_payload),
           SetStatus ''job-1''
             (Completed completed_message
                [\<lparr>question = ''What does photosynthesis convert?'',
                  answer = ''Light into chemical energy''\<rparr>,
                 \<lparr>question = ''Where does photosynthesis take place?'',
                  answer = ''In the chloroplasts''\<rparr>]),
           Ack example_message] \<and>
      getStatus s' ''job-1''
        = Some (Completed completed_message
                  [\<lparr>question = ''What does photosynthesis convert?'',
                    answer = ''Light into chemical energy''\<rparr>,
                   \<lparr>question = ''Where does photosynthesis take place?'',
                    answer = ''In the chloroplasts''\<rparr>])"
    by (auto simp: g c)
  with h1 h2 h3 h4 h5 h6 show ?thesis by blast
qed

text \<open>
  C4. The claim: the states written for one job are a subsequence of queued, processing,
  then completed or failed, with at most one terminal state. When the channel rejects the
  ack of a job that has just been recorded Completed, the catch block records Failed for
  the same job: after one enqueue and one delivery on such a channel the job's writes are
  queued, processing, completed, failed.
\<close>

theorem completed_then_failed_counterexample:
  "history ''id-''
     (trace (run example_gen
        [Enqueue (example_world (Inr [example_card])) example_input,
         Deliver (closed_channel_world (Inr [example_card]))] new_queue))
     = [queued, processing, completed, failed] \<and>
   \<not> length (filter terminal
       (history ''id-''
          (trace (run example_gen
             [Enqueue (example_world (Inr [example_card])) example_input,
              Deliver (closed_channel_world (Inr [example_card]))] new_queue)))) \<le> 1"
  by code_simp

text \<open>
  C4, as amended. In every execution that starts with a fresh queue object and an empty
  broker queue and consists of init, enqueue and startConsumer calls, overlapping or not,
  and deliveries of pending messages to the consumer, with a generator that never repeats
  an identifier: at every point of the trace, for every key for which no ack has been
  rejected so far, the states written form a subsequence of queued, processing, completed
  or of queued, processing, failed; every later write has a strictly later position in the
  life cycle, so no write goes back or repeats; and at most one terminal state has been
  written.
\<close>

theorem status_history_lifecycle:
  assumes "inj gen"
    and "prefix tr (trace (run gen steps new_queue))"
    and "\<forall>m. AckRejected m \<in> set tr \<longrightarrow> status_key m \<noteq> j"
  shows "(subseq (history j tr) [queued, processing, completed] \<or>
      subseq (history j tr) [queued, processing, failed]) \<and>
     sorted_wrt (\<lambda>a b. rank a < rank b) (history j tr) \<and>
     length (filter terminal (history j tr)) \<le> 1"
proof -
  from jobs_inv_run [OF assms(1) jobs_inv_new_queue] have
    "lifecycle j (trace (run gen steps new_queue)) \<in>
        {[], [Some queued], [Some queued, Some processing, Some completed],
         [Some queued, Some processing, Some failed],
         [Some queued, Some processing, Some completed, None, Some failed]}"
    by (simp add: jobs_inv_def)
  from prefix_of_lifecycle [OF lifecycle_prefix [OF assms(2)] this
      lifecycle_no_rejection [OF assms(3)]]
  have "lifecycle j tr \<in> {[], [Some queued], [Some queued, Some processing],
     [Some queued, Some processing, Some completed], [Some queued, Some processing, Some failed]}" .
  then have "history j tr \<in> {[], [queued], [queued, processing],
     [queued, processing, completed], [queued, processing, failed]}"
    by (auto simp: history_lifecycle)
  then show ?thesis by auto
qed

theorem status_history_lifecycle_witness:
  "inj example_gen \<and>
   prefix (trace (run example_gen overlapping_execution new_queue))
     (trace (run example_gen overlapping_execution new_queue)) \<and>
   list_all (\<lambda>e. case e of AckRejected m \<Rightarrow> False | _ \<Rightarrow> True)
     (trace (run example_gen overlapping_execution new_queue)) \<and>
   history ''id-'' (trace (run example_gen overlapping_execution new_queue))
     = [queued, processing, completed] \<and>
   history ''id-i'' (trace (run example_gen overlapping_execution new_queue))
     = [queued, processing, failed] \<and>
   filter terminal
     (history ''id-i'' (trace (run example_gen overlapping_execution new_queue))) = [failed] \<and>
   length (filter terminal
     (history ''id-i'' (trace (run example_gen overlapping_execution new_queue)))) \<le> 1"
proof -
  let ?T = "trace (run example_gen overlapping_execution new_queue)"
  have i: "inj example_gen"
    by (simp add: inj_def example_gen_def)
  have p: "prefix ?T ?T" by simp
  have n: "list_all (\<lambda>e. case e of AckRejected m \<Rightarrow> False | _ \<Rightarrow> True) ?T"
    by code_simp
  have h: "history ''id-'' ?T = [queued, processing, completed]"
    "history ''id-i'' ?T = [queued, processing, failed]"
    by code_simp+
  from status_history_lifecycle [OF i p no_rejected_ack [OF n]]
  have "length (filter terminal (history ''id-i'' ?T)) \<le> 1"
    by blast
  moreover have "filter terminal (history ''id-i'' ?T) = [failed]"
    by (simp add: h)
  ultimately show ?thesis using i p n h by blast
qed

text \<open>
  C5. The claim: whenever processing raises, the worker records Failed, rejects the
  message without requeue, and no error leaves the handler. The nack is sent from the
  catch block: when the channel rejects it, the message is not rejected and the error of
  the nack leaves the handler. With a pipeline that raises and a channel that rejects the
  nack, the handler ends with that error and no nack is in the trace.
\<close>

theorem nack_rejected_counterexample:
  "channel connected_queue = Some Channel \<and>
   JSON_parse (message_content example_message) = Some example_payload \<and>
   generateCards (closed_channel_world (Inl GenerateCardsError)) (generate_input example_payload)
     = Inl GenerateCardsError \<and>
   fst (handleMessage example_gen (closed_channel_world (Inl GenerateCardsError))
          example_message connected_queue) = Inl NackError \<and>
   Nack example_message False False
     \<notin> set (trace (snd (handleMessage example_gen (closed_channel_world (Inl GenerateCardsError))
         example_message connected_queue)))"
  by code_simp

text \<open>
  C5, as amended. When the body does not parse, or the pipeline raises, or an insert
  raises, and the channel accepts the nack, the handler returns normally; the last status
  written is Failed, under the job identifier of the payload when the body parsed and
  otherwise under the message's \<^verbatim>\<open>messageId\<close> or \<open>unknown\<close>; and the last broker
  command is a nack of the message without requeue. Before that the handler has written
  nothing but Processing under the same key and has not acknowledged the message.
\<close>

theorem handleMessage_absorbs_errors:
  assumes "channel s = Some ch"
    and "nack_ok w"
    and "JSON_parse (message_content message) = None \<or>
         (\<exists>payload. JSON_parse (message_content message) = Some payload \<and>
            (case generateCards w (generate_input payload) of
               Inl e \<Rightarrow> True
             | Inr cards \<Rightarrow>
                 \<not> list_all (insert_ok w) (rows_for gen payload (generated s) cards)))"
  shows "\<exists>s' pre key. handleMessage gen w message s = (Inr (), s') \<and>
     key = (case JSON_parse (message_content message) of
              Some payload \<Rightarrow> jobId payload
            | None \<Rightarrow> (case messageId message of Some i \<Rightarrow> i | None \<Rightarrow> ''unknown'')) \<and>
     getStatus s' key = Some (Failed failed_message) \<and>
     trace s' = trace s @ pre
        @ [SetStatus key (Failed failed_message), Nack message False False] \<and>
     Ack message \<notin> set pre \<and>
     (\<forall>k v. SetStatus k v \<in> set pre \<longrightarrow> k = key \<and> state v = processing)"
proof (cases "JSON_parse (message_content message)")
  case None
  let ?key = "case messageId message of Some i \<Rightarrow> i | None \<Rightarrow> ''unknown''"
  let ?s' = "emit (Nack message False False) (statuses_set ?key (Failed failed_message) s)"
  from None assms(1,2) have h: "handleMessage gen w message s = (Inr (), ?s')"
    by (simp add: handleMessage_def on_error_def failure_key_def nack_def)
  have "getStatus ?s' ?key = Some (Failed failed_message) \<and>
     trace ?s' = trace s @ []
        @ [SetStatus ?key (Failed failed_message), Nack message False False] \<and>
     Ack message \<notin> set [] \<and>
     (\<forall>k v. SetStatus k v \<in> set [] \<longrightarrow> k = ?key \<and> state v = processing)"
    by (simp add: getStatus_def)
  with h None show ?thesis
    by (intro exI [of _ ?s'] exI [of _ "[]"] exI [of _ ?key]) simp
next
  case (Some payload)
  with assms(3) have "case generateCards w (generate_input payload) of
               Inl e \<Rightarrow> True
             | Inr cards \<Rightarrow>
                 \<not> list_all (insert_ok w) (rows_for gen payload (generated s) cards)"
    by simp
  from process_payload_fails [OF this, of message] obtain e s1 pre where
    p: "process_payload gen w message payload s = (Inl e, s1)"
    and t: "trace s1 = trace s @ pre" "Ack message \<notin> set pre"
      "\<forall>k v. SetStatus k v \<in> set pre \<longrightarrow> k = jobId payload \<and> v = Processing processing_message"
    by blast
  let ?s' = "emit (Nack message False False)
         (statuses_set (jobId payload) (Failed failed_message) s1)"
  from Some assms(1,2) p have h: "handleMessage gen w message s = (Inr (), ?s')"
    by (simp add: handleMessage_def on_error_def failure_key_def nack_def)
  from t(3) have st: "\<forall>k v. SetStatus k v \<in> set pre \<longrightarrow> k = jobId payload \<and> state v = processing"
    by fastforce
  from t(1,2) have "getStatus ?s' (jobId payload) = Some (Failed failed_message) \<and>
     trace ?s' = trace s @ pre
        @ [SetStatus (jobId payload) (Failed failed_message), Nack message False False] \<and>
     Ack message \<notin> set pre"
    by (simp add: getStatus_def)
  with h st Some show ?thesis
    by (intro exI [of _ ?s'] exI [of _ pre] exI [of _ "jobId payload"]) simp
qed

theorem handleMessage_absorbs_errors_witness:
  "channel connected_queue = Some Channel \<and>
   nack_ok no_insert_world \<and>
   JSON_parse (message_content example_message) = Some example_payload \<and>
   generateCards no_insert_world (generate_input example_payload) = Inr [example_card] \<and>
   \<not> list_all (insert_ok no_insert_world)
        (rows_for example_gen example_payload (generated connected_queue) [example_card]) \<and>
   (\<exists>s' pre. handleMessage example_gen no_insert_world example_message connected_queue
                = (Inr (), s') \<and>
      getStatus s' ''job-1'' = Some (Failed failed_message) \<and>
      trace s' = trace connected_queue @ pre
        @ [SetStatus ''job-1'' (Failed failed_message), Nack example_message False False])"
proof -
  have h1: "channel connected_queue = Some Channel"
    by (simp add: connected_queue_eq)
  have h2: "JSON_parse (message_content example_message) = Some example_payload"
    by (simp add: example_message_def)
  have h3: "generateCards no_insert_world (generate_input example_payload) = Inr [example_card]"
    by (simp add: no_insert_world_def example_world_def)
  have h4: "\<not> list_all (insert_ok no_insert_world)
        (rows_for example_gen example_payload (generated connected_queue) [example_card])"
    by (simp add: no_insert_world_def)
  have h5: "nack_ok no_insert_world"
    by (simp add: no_insert_world_def example_world_def)
  have k: "jobId example_payload = ''job-1''"
    by (simp add: example_payload_def)
  have "JSON_parse (message_content example_message) = None \<or>
         (\<exists>payload. JSON_parse (message_content example_message) = Some payload \<and>
            (case generateCards no_insert_world (generate_input payload) of
               Inl e \<Rightarrow> True
             | Inr cards \<Rightarrow>
                 \<not> list_all (insert_ok no_insert_world)
                      (rows_for example_gen payload (generated connected_queue) cards)))"
    using h2 h3 h4 by simp
  from handleMessage_absorbs_errors [OF h1 h5 this] h2 k
  have "\<exists>s' pre. handleMessage example_gen no_insert_world example_message connected_queue
                = (Inr (), s') \<and>
      getStatus s' ''job-1'' = Some (Failed failed_message) \<and>
      trace s' = trace connected_queue @ pre
        @ [SetStatus ''job-1'' (Failed failed_message), Nack example_message False False]"
    by auto
  with h1 h2 h3 h4 h5 show ?thesis by blast
qed

text \<open>
  C6. When there is no channel and connect or createChannel raises, enqueue returns that
  error, there is still no channel, the status map and the broker queue are as before, and
  the only effect is the connection that was opened when it was createChannel that raised:
  no status is written and nothing is published.
\<close>

theorem enqueue_without_channel:
  assumes "channel s = None"
    and "\<not> connect_ok w \<or> \<not> createChannel_ok w"
  shows "\<exists>e s'. enqueue gen w input s = (Inl e, s') \<and>
     channel s' = None \<and> statuses s' = statuses s \<and> pending s' = pending s \<and>
     trace s' = trace s @ (if connect_ok w then [Connect] else [])"
proof -
  from init_failure [OF assms] obtain e s' where
    i: "init w s = (Inl e, s')" "channel s' = None"
      "trace s' = trace s @ (if connect_ok w then [Connect] else [])"
    by blast
  from i(1) assms(1) have "ensure_channel w s = (Inl e, s')"
    by (simp add: ensure_channel_def)
  then have e: "enqueue gen w input s = (Inl e, s')"
    by (rule enqueue_ensure_fails)
  from init_frame [of w s] i(1) have "statuses s' = statuses s" "pending s' = pending s"
    by simp_all
  with e i(2,3) show ?thesis by blast
qed

theorem enqueue_without_channel_witness:
  "channel new_queue = None \<and>
   connect_ok no_channel_world \<and> \<not> createChannel_ok no_channel_world \<and>
   (\<exists>e s'. enqueue example_gen no_channel_world example_input new_queue = (Inl e, s') \<and>
      channel s' = None \<and> statuses s' = Map.empty \<and> pending s' = [] \<and> trace s' = [Connect])"
proof -
  have h1: "channel new_queue = None" by (simp add: new_queue_def)
  have h2: "\<not> connect_ok no_channel_world \<or> \<not> createChannel_ok no_channel_world"
    by (simp add: no_channel_world_def)
  have c: "connect_ok no_channel_world"
    by (simp add: no_channel_world_def example_world_def)
  from enqueue_without_channel [OF h1 h2, of example_gen example_input] c
  have "\<exists>e s'. enqueue example_gen no_channel_world example_input new_queue = (Inl e, s') \<and>
      channel s' = None \<and> statuses s' = Map.empty \<and> pending s' = [] \<and> trace s' = [Connect]"
    by (simp add: new_queue_def)
  moreover have "\<not> createChannel_ok no_channel_world"
    by (simp add: no_channel_world_def)
  ultimately show ?thesis using h1 c by blast
qed

text \<open>
  C7. Every row the handler inserts belongs to a card of the pipeline's output: it has the
  card's question and answer, the card's difficulty or \<open>medium\<close> when the card has none,
  the card's tags or the empty list when the card has none, the status \<open>new\<close>, the review
  count 0 and a null last review date.
\<close>

theorem handleMessage_stored_fields:
  assumes "handleMessage gen w message s = (r, s')"
    and "Insert row \<in> set (drop (length (trace s)) (trace s'))"
  shows "\<exists>payload cards c.
     JSON_parse (message_content message) = Some payload \<and>
     generateCards w (generate_input payload) = Inr cards \<and> c \<in> set cards \<and>
     map_of row ''question'' = Some (Str (question c)) \<and>
     map_of row ''answer'' = Some (Str (answer c)) \<and>
     map_of row ''difficulty''
       = Some (Str (case difficulty c of Some d \<Rightarrow> d | None \<Rightarrow> ''medium'')) \<and>
     map_of row ''tags'' = Some (StrList (case tags c of Some t \<Rightarrow> t | None \<Rightarrow> [])) \<and>
     map_of row ''status'' = Some (Str ''new'') \<and>
     map_of row ''review_count'' = Some (Num 0) \<and>
     map_of row ''last_review_date'' = Some Null"
proof (cases "channel s")
  case None
  with assms show ?thesis by (simp add: handleMessage_def)
next
  case (Some ch)
  show ?thesis
  proof (cases "JSON_parse (message_content message)")
    case None
    with Some assms show ?thesis
      by (auto simp: handleMessage_def on_error_def nack_def split: if_splits)
  next
    case (Some payload)
    obtain r1 s1 where p: "process_payload gen w message payload s = (r1, s1)"
      by (cases "process_payload gen w message payload s")
    from process_payload_inserts [OF p] obtain evs where
      evs: "trace s1 = trace s @ evs"
        "\<forall>row. Insert row \<in> set evs \<longrightarrow>
           (\<exists>cards. generateCards w (generate_input payload) = Inr cards \<and>
              row \<in> set (rows_for gen payload (generated s) cards))"
      by blast
    from assms p Some \<open>channel s = Some ch\<close> evs(1) have "Insert row \<in> set evs"
      by (cases r1) (auto simp: handleMessage_def on_error_def nack_def split: if_splits)
    with evs(2) obtain cards where
      c: "generateCards w (generate_input payload) = Inr cards"
        "row \<in> set (rows_for gen payload (generated s) cards)"
      by blast
    from rows_for_member [OF c(2)] obtain i c where
      r: "c \<in> set cards" "row = flashcard_fields (gen i) c payload"
      by blast
    from r(2) have "map_of row ''question'' = Some (Str (question c)) \<and>
     map_of row ''answer'' = Some (Str (answer c)) \<and>
     map_of row ''difficulty''
       = Some (Str (case difficulty c of Some d \<Rightarrow> d | None \<Rightarrow> ''medium'')) \<and>
     map_of row ''tags'' = Some (StrList (case tags c of Some t \<Rightarrow> t | None \<Rightarrow> [])) \<and>
     map_of row ''status'' = Some (Str ''new'') \<and>
     map_of row ''review_count'' = Some (Num 0) \<and>
     map_of row ''last_review_date'' = Some Null"
      by (simp add: flashcard_fields_def)
    with Some c(1) r(1) show ?thesis by blast
  qed
qed

theorem handleMessage_stored_fields_witness:
  "Insert (flashcard_fields ''id-'' example_card example_payload)
     \<in> set (drop (length (trace connected_queue))
         (trace (snd (handleMessage example_gen (example_world (Inr [example_card]))
            example_message connected_queue)))) \<and>
   map_of (flashcard_fields ''id-'' example_card example_payload) ''difficulty''
     = Some (Str ''medium'') \<and>
   map_of (flashcard_fields ''id-'' example_card example_payload) ''tags'' = Some (StrList []) \<and>
   map_of (flashcard_fields ''id-'' example_card example_payload) ''status'' = Some (Str ''new'') \<and>
   map_of (flashcard_fields ''id-'' example_card example_payload) ''review_count''
     = Some (Num 0) \<and>
   map_of (flashcard_fields ''id-'' example_card example_payload) ''last_review_date''
     = Some Null"
proof -
  let ?w = "example_world (Inr [example_card])"
  let ?row = "flashcard_fields ''id-'' example_card example_payload"
  let ?h = "handleMessage example_gen ?w example_message connected_queue"
  have h1: "channel connected_queue = Some Channel"
    by (simp add: connected_queue_eq)
  have h2: "JSON_parse (message_content example_message) = Some example_payload"
    by (simp add: example_message_def)
  have h3: "generateCards ?w (generate_input example_payload) = Inr [example_card]"
    by (simp add: example_world_def)
  have h4: "list_all (insert_ok ?w)
     (rows_for example_gen example_payload (generated connected_queue) [example_card])"
    by (simp add: example_world_def)
  have g: "generated connected_queue = 0" "example_gen 0 = ''id-''"
    by (simp_all add: connected_queue_eq example_gen_def)
  have h5: "ack_ok ?w"
    by (simp add: example_world_def)
  have m: "Insert ?row \<in> set (drop (length (trace connected_queue)) (trace (snd ?h)))"
    by (simp add: handleMessage_ok [OF h1 h2 h3 h4 h5] g)
  have p: "?h = (fst ?h, snd ?h)" by simp
  from handleMessage_stored_fields [OF p m] have
   "map_of ?row ''difficulty'' = Some (Str ''medium'') \<and>
    map_of ?row ''tags'' = Some (StrList []) \<and>
    map_of ?row ''status'' = Some (Str ''new'') \<and>
    map_of ?row ''review_count'' = Some (Num 0) \<and>
    map_of ?row ''last_review_date'' = Some Null"
    by (simp add: flashcard_fields_def example_card_def)
  with m show ?thesis by blast
qed

text \<open>
  C8. The claim: a message whose body does not parse is recorded Failed and rejected
  without requeue. When the channel rejects the nack, Failed is recorded but the message
  is not rejected, and the error of the nack leaves the handler.
\<close>

theorem unparsable_nack_rejected_counterexample:
  "channel connected_queue = Some Channel \<and>
   JSON_parse (message_content (unparsable_message None)) = None \<and>
   fst (handleMessage example_gen (closed_channel_world (Inr [example_card]))
          (unparsable_message None) connected_queue) = Inl NackError \<and>
   Nack (unparsable_message None) False False
     \<notin> set (trace (snd (handleMessage example_gen (closed_channel_world (Inr [example_card]))
         (unparsable_message None) connected_queue)))"
  by code_simp

text \<open>
  C8, as amended. When the body of a dequeued message does not parse and the channel
  accepts the nack, the handler returns normally; the status under the message's
  \<^verbatim>\<open>messageId\<close>, or under \<open>unknown\<close> when it has none, is Failed afterwards and the
  status of every other key is as before; the trace gains exactly the write of that status
  and the nack of the message without requeue; nothing is drawn from the generator and
  the broker queue is as before.
\<close>

theorem handleMessage_unparsable:
  assumes "channel s = Some ch"
    and "JSON_parse (message_content message) = None"
    and "nack_ok w"
  shows "\<exists>s'. handleMessage gen w message s = (Inr (), s') \<and>
     getStatus s' (case messageId message of Some i \<Rightarrow> i | None \<Rightarrow> ''unknown'')
       = Some (Failed failed_message) \<and>
     (\<forall>k. k \<noteq> (case messageId message of Some i \<Rightarrow> i | None \<Rightarrow> ''unknown'') \<longrightarrow>
        getStatus s' k = getStatus s k) \<and>
     trace s' = trace s
        @ [SetStatus (case messageId message of Some i \<Rightarrow> i | None \<Rightarrow> ''unknown'')
             (Failed failed_message),
           Nack message False False] \<and>
     pending s' = pending s \<and> generated s' = generated s"
  using assms
  by (simp add: handleMessage_def on_error_def failure_key_def nack_def getStatus_def)

theorem handleMessage_unparsable_witness:
  "channel connected_queue = Some Channel \<and>
   nack_ok (example_world (Inr [example_card])) \<and>
   JSON_parse (message_content (unparsable_message None)) = None \<and>
   (\<exists>s'. handleMessage example_gen (example_world (Inr [example_card]))
            (unparsable_message None) connected_queue = (Inr (), s') \<and>
      getStatus s' ''unknown'' = Some (Failed failed_message) \<and>
      trace s' = trace connected_queue
        @ [SetStatus ''unknown'' (Failed failed_message),
           Nack (unparsable_message None) False False]) \<and>
   JSON_parse (message_content (unparsable_message (Some ''m-7''))) = None \<and>
   (\<exists>s'. handleMessage example_gen (example_world (Inr [example_card]))
            (unparsable_message (Some ''m-7'')) connected_queue = (Inr (), s') \<and>
      getStatus s' ''m-7'' = Some (Failed failed_message) \<and>
      getStatus s' ''unknown'' = None \<and>
      trace s' = trace connected_queue
        @ [SetStatus ''m-7'' (Failed failed_message),
           Nack (unparsable_message (Some ''m-7'')) False False])"
proof -
  let ?w = "example_world (Inr [example_card])"
  have h1: "channel connected_queue = Some Channel"
    by (simp add: connected_queue_eq)
  have h2: "JSON_parse (message_content (unparsable_message i)) = None" for i
    by (simp add: unparsable_message_def)
  have h3: "nack_ok ?w"
    by (simp add: example_world_def)
  have m: "messageId (unparsable_message i) = i" for i
    by (simp add: unparsable_message_def)
  have e: "getStatus connected_queue ''unknown'' = None"
    by (simp add: getStatus_def connected_queue_eq)
  from handleMessage_unparsable [OF h1 h2 [of None] h3, of example_gen]
  have a: "\<exists>s'. handleMessage example_gen ?w (unparsable_message None) connected_queue
        = (Inr (), s') \<and>
      getStatus s' ''unknown'' = Some (Failed failed_message) \<and>
      trace s' = trace connected_queue
        @ [SetStatus ''unknown'' (Failed failed_message),
           Nack (unparsable_message None) False False]"
    by (auto simp: m)
  from handleMessage_unparsable [OF h1 h2 [of "Some ''m-7''"] h3, of example_gen] e
  have b: "\<exists>s'. handleMessage example_gen ?w (unparsable_message (Some ''m-7'')) connected_queue
        = (Inr (), s') \<and>
      getStatus s' ''m-7'' = Some (Failed failed_message) \<and>
      getStatus s' ''unknown'' = None \<and>
      trace s' = trace connected_queue
        @ [SetStatus ''m-7'' (Failed failed_message),
           Nack (unparsable_message (Some ''m-7'')) False False]"
    by (auto simp: m)
  from h1 h2 h3 a b show ?thesis by blast
qed

text \<open>
  C9. The claim: in any sequence of enqueue, startConsumer and init calls at most one
  connection and one channel are created and at most one consumer subscription is
  registered. The guard of init is the channel, which is assigned only after the awaits of
  connect and createChannel. When connect succeeds and createChannel raises, the next call
  connects again: after an enqueue whose createChannel raises and a second enqueue that
  succeeds, two connections have been opened. And two enqueue calls that overlap both pass
  the guard before either has a channel: both connect and both create a channel, and both
  return a job identifier.
\<close>

theorem second_connection_counterexample:
  "\<not> count_list
       (trace (run example_gen
          [Enqueue no_channel_world example_input,
           Enqueue (example_world (Inr [example_card])) example_input] new_queue))
       Connect \<le> 1 \<and>
   \<not> count_list (trace (run example_gen overlapping_enqueues new_queue)) CreateChannel \<le> 1 \<and>
   \<not> count_list (trace (run example_gen overlapping_enqueues new_queue)) Connect \<le> 1 \<and>
   inflight (run example_gen overlapping_enqueues new_queue)
     = [Finished (Inr (Some ''id-'')), Finished (Inr (Some ''id-i''))]"
  by code_simp

text \<open>
  C9, as amended. In any execution of init, enqueue and startConsumer calls on a fresh
  queue object, overlapping or not, at most one consumer subscription is registered, and
  init changes nothing when the channel exists. When no two calls overlap, at most one
  channel is created, and the number of connections opened is at most one more than the
  number of calls in which createChannel was rejected.
\<close>

theorem broker_setup_at_most_once:
  "count_list (trace (run gen steps new_queue)) (Consume queueName) \<le> 1 \<and>
   (\<forall>w s ch. channel s = Some ch \<longrightarrow>
      init w s = (Inr (), s) \<and> start gen CallInit s = (Finished (Inr None), s)) \<and>
   (list_all whole_call steps \<longrightarrow>
      count_list (trace (run gen steps new_queue)) CreateChannel \<le> 1 \<and>
      count_list (trace (run gen steps new_queue)) Connect
        \<le> 1 + createChannel_rejections gen steps new_queue)"
proof -
  have a: "count_list (trace new_queue) CreateChannel = (if channel new_queue = None then 0 else 1)"
    and b: "count_list (trace new_queue) (Consume queueName)
       + length (filter awaits_consume (inflight new_queue))
       \<le> (if isConsuming new_queue then 1 else 0)"
    and c: "count_list (trace new_queue) Connect = 0 + (if channel new_queue = None then 0 else 1)"
    by (simp_all add: new_queue_def)
  from run_consume_bound [OF b, of gen steps]
  have 1: "count_list (trace (run gen steps new_queue)) (Consume queueName) \<le> 1"
    by (simp split: if_splits)
  have 2: "\<forall>w s ch. channel s = Some ch \<longrightarrow>
      init w s = (Inr (), s) \<and> start gen CallInit s = (Finished (Inr None), s)"
    by (simp add: init_def start_def init_start_def init_settled_def)
  have 3: "list_all whole_call steps \<longrightarrow>
      count_list (trace (run gen steps new_queue)) CreateChannel \<le> 1 \<and>
      count_list (trace (run gen steps new_queue)) Connect
        \<le> 1 + createChannel_rejections gen steps new_queue"
  proof
    assume w: "list_all whole_call steps"
    from run_setup_counts [OF a w, of gen] run_connect_count [OF c w, of gen]
    show "count_list (trace (run gen steps new_queue)) CreateChannel \<le> 1 \<and>
      count_list (trace (run gen steps new_queue)) Connect
        \<le> 1 + createChannel_rejections gen steps new_queue"
      by (simp split: if_splits)
  qed
  from 1 2 3 show ?thesis by blast
qed

theorem broker_setup_at_most_once_witness:
  "list_all whole_call sequential_calls \<and>
   createChannel_rejections example_gen sequential_calls new_queue = 1 \<and>
   count_list (trace (run example_gen sequential_calls new_queue)) CreateChannel \<le> 1 \<and>
   count_list (trace (run example_gen sequential_calls new_queue)) Connect \<le> 2 \<and>
   count_list (trace (run example_gen overlapping_enqueues new_queue)) (Consume queueName) \<le> 1 \<and>
   channel connected_queue = Some Channel \<and>
   init no_channel_world connected_queue = (Inr (), connected_queue)"
proof -
  have all: "list_all whole_call sequential_calls"
    by (simp add: sequential_calls_def)
  have rej: "createChannel_rejections example_gen sequential_calls new_queue = 1"
    by code_simp
  have ch: "channel connected_queue = Some Channel"
    by (simp add: connected_queue_eq)
  from broker_setup_at_most_once [of example_gen sequential_calls] all rej
  have 1: "count_list (trace (run example_gen sequential_calls new_queue)) CreateChannel \<le> 1"
    and 2: "count_list (trace (run example_gen sequential_calls new_queue)) Connect \<le> 2"
    by simp_all
  from broker_setup_at_most_once [of example_gen overlapping_enqueues]
  have 3: "count_list (trace (run example_gen overlapping_enqueues new_queue)) (Consume queueName)
      \<le> 1"
    by blast
  from broker_setup_at_most_once [of example_gen sequential_calls] ch
  have 4: "init no_channel_world connected_queue = (Inr (), connected_queue)"
    by blast
  from all rej 1 2 3 ch 4 show ?thesis by blast
qed

text \<open>
  C10. When the channel is unset, the message handler returns at once: the whole system
  state is left as it was, so no status is written, the pipeline is not invoked, nothing
  is inserted, and the message is neither acknowledged nor rejected.
\<close>

theorem handleMessage_without_channel:
  "channel s = None \<Longrightarrow> handleMessage gen w message s = (Inr (), s)"
  by (simp add: handleMessage_def)

theorem handleMessage_without_channel_witness:
  "channel new_queue = None \<and>
   handleMessage example_gen (example_world (Inr [example_card])) example_message new_queue
     = (Inr (), new_queue)"
  using handleMessage_without_channel
    [of new_queue example_gen "example_world (Inr [example_card])" example_message]
  by (simp add: new_queue_def)

end
